theory Spec2Isabelle
  imports Complex_Main "HOL-Library.AList" "HOL-Library.Char_ord" "HOL-Library.List_Lexorder"
    "HOL-Library.Multiset"
begin

section \<open>Common data\<close>

text \<open>
  The exceptions the modelled code can raise. Numbers of the map document and of the
  simulation (Python ints and floats) are modelled as reals; rounding is not modelled.
\<close>

datatype error = KeyError | TypeError | ValueError | ZeroDivisionError

type_synonym vec = "real \<times> real"

text \<open>Node ids: strings for road-derived nodes, integers for hubs.\<close>

datatype node_id = StrId string | IntId int

text \<open>\<open>str(n)\<close> of a Python int, as used by the f-strings that name nodes.\<close>

definition digit_char :: "nat \<Rightarrow> char" where
  "digit_char d = ''0123456789'' ! d"

function str_nat :: "nat \<Rightarrow> string" where
  "str_nat n = (if n < 10 then [digit_char n] else str_nat (n div 10) @ [digit_char (n mod 10)])"
  by pat_completeness auto
termination
  by (relation "measure (\<lambda>n. n)") auto

definition str_int :: "int \<Rightarrow> string" where
  "str_int i = (if i < 0 then CHR ''-'' # str_nat (nat (- i)) else str_nat (nat i))"

fun str_node :: "node_id \<Rightarrow> string" where
  "str_node (StrId s) = s"
| "str_node (IntId i) = str_int i"

section \<open>map\_utils.py: the map document and the graph builder\<close>

record road =
  road_id :: int
  road_x :: real
  road_y :: real
  road_w :: real
  road_h :: real
  road_type :: "string option"

record hub =
  hub_id :: int
  hub_x :: real
  hub_y :: real

record symbol =
  sym_x :: real
  sym_y :: real
  sym_type :: "string option"

record mapdata =
  roads :: "road list"
  hubs :: "hub list"
  map_symbols :: "symbol list"
  map_lights :: "(string \<rightharpoonup> real) list"

text \<open>
  The two dictionaries the builder fills keep Python's insertion order: association
  lists, written with \<open>AList.update\<close> (an existing key keeps its place, a new key goes
  last) and read with \<open>map_of\<close>.
\<close>

type_synonym node_map = "(node_id \<times> vec) list"
type_synonym adjacency = "(node_id \<times> real) list"
type_synonym edge_map = "(node_id \<times> adjacency) list"

text \<open>\<open>_rect_overlap\<close>: the overlap rectangle \<open>(x, y, w, h)\<close>, or None.\<close>

definition rect_overlap :: "road \<Rightarrow> road \<Rightarrow> (real \<times> real \<times> real \<times> real) option" where
  "rect_overlap a b =
     (let x1 = max (road_x a) (road_x b);
          y1 = max (road_y a) (road_y b);
          x2 = min (road_x a + road_w a) (road_x b + road_w b);
          y2 = min (road_y a + road_h a) (road_y b + road_h b)
      in if x2 > x1 \<and> y2 > y1 then Some (x1, y1, x2 - x1, y2 - y1) else None)"

text \<open>\<open>_dist\<close>, that is \<open>math.hypot\<close> of the coordinate differences.\<close>

definition dist_pt :: "vec \<Rightarrow> vec \<Rightarrow> real" where
  "dist_pt a b = sqrt ((fst a - fst b)\<^sup>2 + (snd a - snd b)\<^sup>2)"

text \<open>\<open>edges[k].append(e)\<close> on a \<open>defaultdict(list)\<close>.\<close>

definition edges_append :: "edge_map \<Rightarrow> node_id \<Rightarrow> node_id \<times> real \<Rightarrow> edge_map" where
  "edges_append es k e =
     AList.update k ((case map_of es k of None \<Rightarrow> [] | Some l \<Rightarrow> l) @ [e]) es"

text \<open>\<open>edges.get(k, [])\<close>.\<close>

definition edges_get :: "edge_map \<Rightarrow> node_id \<Rightarrow> adjacency" where
  "edges_get es k = (case map_of es k of None \<Rightarrow> [] | Some l \<Rightarrow> l)"

text \<open>Step 1: three nodes per road along its centre line, chained by two edges each way.
  (\<open>node_roads\<close> is filled by the source but never read; it is left out.)\<close>

definition road_node :: "int \<Rightarrow> string \<Rightarrow> node_id" where
  "road_node rid suffix = StrId (''r'' @ str_int rid @ ''_'' @ suffix)"

definition add_road :: "road \<Rightarrow> node_map \<times> edge_map \<Rightarrow> node_map \<times> edge_map" where
  "add_road r g =
     (let ns = fst g; es = snd g;
          rid = road_id r; x = road_x r; y = road_y r; w = road_w r; h = road_h r;
          cx = x + w / 2; cy = y + h / 2
      in if w \<ge> h then
           (let left = (x, cy); mid = (cx, cy); right = (x + w, cy);
                nL = road_node rid ''L''; nM = road_node rid ''M''; nR = road_node rid ''R'';
                ns1 = AList.update nR right (AList.update nM mid (AList.update nL left ns));
                dLM = dist_pt left mid; dMR = dist_pt mid right;
                es1 = edges_append es nL (nM, dLM);
                es2 = edges_append es1 nM (nL, dLM);
                es3 = edges_append es2 nM (nR, dMR);
                es4 = edges_append es3 nR (nM, dMR)
            in (ns1, es4))
         else
           (let top = (cx, y); mid = (cx, cy); bottom = (cx, y + h);
                nT = road_node rid ''T''; nM = road_node rid ''M''; nB = road_node rid ''B'';
                ns1 = AList.update nB bottom (AList.update nM mid (AList.update nT top ns));
                dTM = dist_pt top mid; dMB = dist_pt mid bottom;
                es1 = edges_append es nT (nM, dTM);
                es2 = edges_append es1 nM (nT, dTM);
                es3 = edges_append es2 nM (nB, dMB);
                es4 = edges_append es3 nB (nM, dMB)
            in (ns1, es4)))"

text \<open>
  The nearest-node scans of steps 2 and 4: \<open>best = None; bd = inf\<close>, then a strict
  \<open>d < bd\<close> per candidate, so the first of several nearest candidates wins. The
  accumulator \<open>None\<close> stands for \<open>(None, inf)\<close>.
\<close>

definition nearest_step :: "vec \<Rightarrow> node_id \<times> vec \<Rightarrow> (node_id \<times> real) option \<Rightarrow> (node_id \<times> real) option" where
  "nearest_step p cand best =
     (let d = dist_pt (snd cand) p
      in case best of
           None \<Rightarrow> Some (fst cand, d)
         | Some b \<Rightarrow> if d < snd b then Some (fst cand, d) else Some b)"

text \<open>\<open>nid.startswith(p)\<close>; while step 2 runs every key of \<open>nodes\<close> is a string.\<close>

fun startswith :: "node_id \<Rightarrow> string \<Rightarrow> bool" where
  "startswith (StrId s) p = (take (length p) s = p)"
| "startswith (IntId i) p = False"

text \<open>\<open>if best: edges[a].append((best, d)); edges[best].append((a, d))\<close>.\<close>

definition connect_best :: "node_id \<Rightarrow> (node_id \<times> real) option \<Rightarrow> edge_map \<Rightarrow> edge_map" where
  "connect_best a best es =
     (case best of
        None \<Rightarrow> es
      | Some b \<Rightarrow> edges_append (edges_append es a (fst b, snd b)) (fst b) (a, snd b))"

text \<open>Step 2, the body of the double loop for one pair of roads \<open>a\<close>, \<open>b\<close>.\<close>

definition intersect_pair :: "road \<Rightarrow> road \<Rightarrow> node_map \<times> edge_map \<Rightarrow> node_map \<times> edge_map" where
  "intersect_pair a b g =
     (case rect_overlap a b of
        None \<Rightarrow> g
      | Some ov \<Rightarrow>
          (let ns = fst g; es = snd g;
               ix = fst ov + fst (snd (snd ov)) / 2;
               iy = fst (snd ov) + snd (snd (snd ov)) / 2;
               inter_id = StrId (''i'' @ str_int (road_id a) @ ''_'' @ str_int (road_id b));
               ns1 = AList.update inter_id (ix, iy) ns;
               road_a_nodes = filter (\<lambda>c. startswith (fst c) (''r'' @ str_int (road_id a) @ ''_'')) ns1;
               road_b_nodes = filter (\<lambda>c. startswith (fst c) (''r'' @ str_int (road_id b) @ ''_'')) ns1;
               best_a = fold (nearest_step (ix, iy)) road_a_nodes None;
               best_b = fold (nearest_step (ix, iy)) road_b_nodes None;
               es1 = connect_best inter_id best_a es;
               es2 = connect_best inter_id best_b es1
           in (ns1, es2)))"

text \<open>\<open>for i in range(n): for j in range(i + 1, n)\<close> over a list: every element with
  each later one, in order.\<close>

fun intersect_roads :: "road list \<Rightarrow> node_map \<times> edge_map \<Rightarrow> node_map \<times> edge_map" where
  "intersect_roads [] g = g"
| "intersect_roads (a # rs) g = intersect_roads rs (fold (intersect_pair a) rs g)"

text \<open>Step 3, the body of the double loop for one pair of nodes.\<close>

definition stitch_pair :: "node_id \<times> vec \<Rightarrow> node_id \<times> vec \<Rightarrow> edge_map \<Rightarrow> edge_map" where
  "stitch_pair c1 c2 es =
     (let n1 = fst c1; n2 = fst c2;
          already = list_ex (\<lambda>e. fst e = n2) (edges_get es n1)
      in if already then es
         else (let d = dist_pt (snd c1) (snd c2)
               in if d < 40 then edges_append (edges_append es n1 (n2, d)) n2 (n1, d) else es))"

fun stitch_nodes :: "node_map \<Rightarrow> edge_map \<Rightarrow> edge_map" where
  "stitch_nodes [] es = es"
| "stitch_nodes (c # cs) es = stitch_nodes cs (fold (stitch_pair c) cs es)"

text \<open>Step 4 for one hub: the scan runs over every node but the hub itself, earlier hubs
  included.\<close>

definition add_hub :: "real \<Rightarrow> hub \<Rightarrow> node_map \<times> edge_map \<Rightarrow> node_map \<times> edge_map" where
  "add_hub hub_snap_dist h g =
     (let hid = IntId (hub_id h); p = (hub_x h, hub_y h);
          ns1 = AList.update hid p (fst g);
          es1 = AList.update hid [] (snd g);
          best = fold (nearest_step p) (filter (\<lambda>c. fst c \<noteq> hid) ns1) None
      in case best of
           None \<Rightarrow> (ns1, es1)
         | Some b \<Rightarrow>
             if snd b \<le> hub_snap_dist
             then (ns1, edges_append (edges_append es1 hid (fst b, snd b)) (fst b) (hid, snd b))
             else (ns1, es1))"

definition build_graph :: "mapdata \<Rightarrow> real \<Rightarrow> node_map \<times> edge_map" where
  "build_graph md hub_snap_dist =
     (let g1 = fold add_road (roads md) ([], []);
          g2 = intersect_roads (roads md) g1;
          g3 = (fst g2, stitch_nodes (fst g2) (snd g2))
      in fold (add_hub hub_snap_dist) (hubs md) g3)"

section \<open>map\_utils.py: the path router\<close>

text \<open>
  The priority queue holds tuples \<open>(cost, node, path)\<close>. Python compares tuples and
  lists at their first unequal components; a string and an integer are never equal,
  and ordering them raises TypeError.
\<close>

type_synonym item = "real \<times> node_id \<times> node_id list"

fun lt_node :: "node_id \<Rightarrow> node_id \<Rightarrow> error + bool" where
  "lt_node (StrId a) (StrId b) = Inr (a < b)"
| "lt_node (IntId a) (IntId b) = Inr (a < b)"
| "lt_node (StrId a) (IntId b) = Inl TypeError"
| "lt_node (IntId a) (StrId b) = Inl TypeError"

fun lt_path :: "node_id list \<Rightarrow> node_id list \<Rightarrow> error + bool" where
  "lt_path [] [] = Inr False"
| "lt_path [] (y # ys) = Inr True"
| "lt_path (x # xs) [] = Inr False"
| "lt_path (x # xs) (y # ys) = (if x = y then lt_path xs ys else lt_node x y)"

definition lt_item :: "item \<Rightarrow> item \<Rightarrow> error + bool" where
  "lt_item a b =
     (if fst a \<noteq> fst b then Inr (fst a < fst b)
      else if fst (snd a) \<noteq> fst (snd b) then lt_node (fst (snd a)) (fst (snd b))
      else lt_path (snd (snd a)) (snd (snd b)))"

text \<open>
  \<open>heapq\<close> of the Python standard library, on a list used as a binary heap:
  \<open>_siftdown\<close>, \<open>_siftup\<close>, \<open>heappush\<close> and \<open>heappop\<close> as in \<open>Lib/heapq.py\<close>, with every
  comparison \<open>a < b\<close> an \<open>lt_item\<close> that may raise.
\<close>

function siftdown :: "item list \<Rightarrow> nat \<Rightarrow> nat \<Rightarrow> item \<Rightarrow> error + item list" where
  "siftdown heap startpos pos newitem =
     (if pos > startpos then
        (let parentpos = (pos - 1) div 2; parent = heap ! parentpos
         in case lt_item newitem parent of
              Inl e \<Rightarrow> Inl e
            | Inr b \<Rightarrow> if b then siftdown (heap[pos := parent]) startpos parentpos newitem
                       else Inr (heap[pos := newitem]))
      else Inr (heap[pos := newitem]))"
  by pat_completeness auto
termination
  by (relation "measure (\<lambda>(heap, startpos, pos, newitem). pos)") auto

function siftup_loop :: "item list \<Rightarrow> nat \<Rightarrow> error + item list \<times> nat" where
  "siftup_loop heap pos =
     (let childpos = 2 * pos + 1
      in if childpos < length heap then
           (let rightpos = childpos + 1
            in case (if rightpos < length heap
                     then (case lt_item (heap ! childpos) (heap ! rightpos) of
                             Inl e \<Rightarrow> Inl e
                           | Inr b \<Rightarrow> Inr (if \<not> b then rightpos else childpos))
                     else Inr childpos) of
                 Inl e \<Rightarrow> Inl e
               | Inr c \<Rightarrow> siftup_loop (heap[pos := heap ! c]) c)
         else Inr (heap, pos))"
  by pat_completeness auto
termination
  by (relation "measure (\<lambda>(heap, pos). length heap - pos)") (auto split: if_splits sum.splits)

definition siftup :: "item list \<Rightarrow> nat \<Rightarrow> error + item list" where
  "siftup heap pos =
     (let newitem = heap ! pos
      in case siftup_loop heap pos of
           Inl e \<Rightarrow> Inl e
         | Inr r \<Rightarrow> siftdown (fst r) pos (snd r) newitem)"

definition heappush :: "item list \<Rightarrow> item \<Rightarrow> error + item list" where
  "heappush heap it = siftdown (heap @ [it]) 0 (length heap) it"

text \<open>\<open>heappop\<close> is only called on a non-empty heap (\<open>while pq\<close>).\<close>

definition heappop :: "item list \<Rightarrow> error + item \<times> item list" where
  "heappop heap =
     (let lastelt = last heap; heap1 = butlast heap
      in if heap1 \<noteq> [] then
           (case siftup (heap1[0 := lastelt]) 0 of
              Inl e \<Rightarrow> Inl e
            | Inr heap2 \<Rightarrow> Inr (heap1 ! 0, heap2))
         else Inr (lastelt, heap1))"

text \<open>
  The congestion table is keyed by the sorted pair of the endpoints' \<open>str\<close>;
  \<open>traffic_counts.get(key, 0)\<close>.
\<close>

type_synonym traffic = "string \<times> string \<rightharpoonup> real"

definition edge_key :: "node_id \<Rightarrow> node_id \<Rightarrow> string \<times> string" where
  "edge_key a b = (if str_node b < str_node a then (str_node b, str_node a) else (str_node a, str_node b))"

definition traffic_get :: "traffic \<Rightarrow> node_id \<Rightarrow> node_id \<Rightarrow> real" where
  "traffic_get tc a b = (case tc (edge_key a b) of None \<Rightarrow> 0 | Some t \<Rightarrow> t)"

text \<open>The cost of going over the edge \<open>(node, nbr, w)\<close>: \<open>w + t * 10.0\<close>.\<close>

definition edge_cost :: "traffic \<Rightarrow> node_id \<Rightarrow> node_id \<Rightarrow> real \<Rightarrow> real" where
  "edge_cost tc a b w = w + traffic_get tc a b * 10"

text \<open>The inner \<open>for nbr, w in edges.get(node, [])\<close> loop.\<close>

fun push_neighbours ::
  "traffic \<Rightarrow> (node_id \<rightharpoonup> real) \<Rightarrow> real \<Rightarrow> node_id \<Rightarrow> node_id list \<Rightarrow> adjacency \<Rightarrow> item list
     \<Rightarrow> error + item list" where
  "push_neighbours tc seen cost node path [] pq = Inr pq"
| "push_neighbours tc seen cost node path (e # rest) pq =
     (let nbr = fst e; nc = cost + edge_cost tc node nbr (snd e)
      in if (case seen nbr of None \<Rightarrow> True | Some c \<Rightarrow> nc < c) then
           (case heappush pq (nc, nbr, path @ [nbr]) of
              Inl err \<Rightarrow> Inl err
            | Inr pq1 \<Rightarrow> push_neighbours tc seen cost node path rest pq1)
         else push_neighbours tc seen cost node path rest pq)"

text \<open>The \<open>while pq\<close> loop; \<open>None\<close> of the outer option is a loop that never ends.\<close>

partial_function (option) find_path_loop ::
  "edge_map \<Rightarrow> node_id \<Rightarrow> traffic \<Rightarrow> item list \<Rightarrow> (node_id \<rightharpoonup> real)
     \<Rightarrow> (error + node_id list option) option" where
  "find_path_loop es goal_id tc pq seen =
     (if pq = [] then Some (Inr None)
      else (case heappop pq of
              Inl err \<Rightarrow> Some (Inl err)
            | Inr r \<Rightarrow>
                (let cost = fst (fst r); node = fst (snd (fst r)); path = snd (snd (fst r));
                     pq1 = snd r
                 in if node = goal_id then Some (Inr (Some path))
                    else if (case seen node of None \<Rightarrow> False | Some c \<Rightarrow> c \<le> cost)
                    then find_path_loop es goal_id tc pq1 seen
                    else (case push_neighbours tc (seen(node \<mapsto> cost)) cost node path
                                 (edges_get es node) pq1 of
                            Inl err \<Rightarrow> Some (Inl err)
                          | Inr pq2 \<Rightarrow> find_path_loop es goal_id tc pq2 (seen(node \<mapsto> cost))))))"

definition find_path ::
  "edge_map \<Rightarrow> node_id \<Rightarrow> node_id \<Rightarrow> traffic option \<Rightarrow> (error + node_id list option) option" where
  "find_path es start_id goal_id traffic_counts =
     (if map_of es start_id = None \<or> map_of es goal_id = None then Some (Inr None)
      else (let tc = (case traffic_counts of None \<Rightarrow> Map.empty | Some t \<Rightarrow> t)
            in find_path_loop es goal_id tc [(0, start_id, [start_id])] Map.empty))"

section \<open>simulator.py: TrafficLight\<close>

record TrafficLight =
  light_x :: real
  light_y :: real
  light_green :: real
  light_red :: real
  light_offset :: real
  light_t :: real

text \<open>\<open>data.get(key, default)\<close> on a JSON object whose values are numbers.\<close>

definition dict_get :: "(string \<rightharpoonup> real) \<Rightarrow> string \<Rightarrow> real \<Rightarrow> real" where
  "dict_get data k dflt = (case data k of None \<Rightarrow> dflt | Some v \<Rightarrow> v)"

text \<open>\<open>TrafficLight.__init__\<close>: \<open>data['x']\<close> and \<open>data['y']\<close> raise KeyError when absent;
  the other three fields are read with \<open>data.get\<close> and a default.\<close>

definition TrafficLight_init :: "(string \<rightharpoonup> real) \<Rightarrow> error + TrafficLight" where
  "TrafficLight_init data =
     (case data ''x'' of
        None \<Rightarrow> Inl KeyError
      | Some vx \<Rightarrow>
          (case data ''y'' of
             None \<Rightarrow> Inl KeyError
           | Some vy \<Rightarrow>
               Inr \<lparr>light_x = vx, light_y = vy,
                    light_green = dict_get data ''green'' 6,
                    light_red = dict_get data ''red'' 6,
                    light_offset = dict_get data ''offset'' 0,
                    light_t = dict_get data ''offset'' 0\<rparr>))"

text \<open>\<open>[TrafficLight(l) for l in self.map.get('lights', [])]\<close> of \<open>Simulator.__init__\<close>:
  the first exception aborts the whole comprehension.\<close>

fun load_lights :: "(string \<rightharpoonup> real) list \<Rightarrow> error + TrafficLight list" where
  "load_lights [] = Inr []"
| "load_lights (d # ds) =
     (case TrafficLight_init d of
        Inl e \<Rightarrow> Inl e
      | Inr l \<Rightarrow> (case load_lights ds of Inl e \<Rightarrow> Inl e | Inr ls \<Rightarrow> Inr (l # ls)))"

definition TrafficLight_update :: "TrafficLight \<Rightarrow> real \<Rightarrow> TrafficLight" where
  "TrafficLight_update lt dt = lt\<lparr>light_t := light_t lt + dt\<rparr>"

text \<open>Python's \<open>a % b\<close> on floats: the result has the sign of \<open>b\<close>; \<open>b = 0\<close> raises.\<close>

definition py_mod :: "real \<Rightarrow> real \<Rightarrow> error + real" where
  "py_mod a b = (if b = 0 then Inl ZeroDivisionError else Inr (a - b * of_int \<lfloor>a / b\<rfloor>))"

definition is_green_for :: "TrafficLight \<Rightarrow> vec \<Rightarrow> error + bool" where
  "is_green_for lt dir_vec =
     (case py_mod (light_t lt) (light_green lt + light_red lt) of
        Inl e \<Rightarrow> Inl e
      | Inr phase \<Rightarrow>
          Inr (if \<bar>fst dir_vec\<bar> > \<bar>snd dir_vec\<bar> then phase < light_green lt
               else phase \<ge> light_green lt))"

section \<open>simulator.py: Car and Simulator\<close>

text \<open>\<open>pygame.math.Vector2\<close>: difference, sum, scaling, length, dot product, and
  \<open>normalize\<close>, which raises ValueError on the zero vector.\<close>

definition vsub :: "vec \<Rightarrow> vec \<Rightarrow> vec" where
  "vsub a b = (fst a - fst b, snd a - snd b)"

definition vadd :: "vec \<Rightarrow> vec \<Rightarrow> vec" where
  "vadd a b = (fst a + fst b, snd a + snd b)"

definition vscale :: "vec \<Rightarrow> real \<Rightarrow> vec" where
  "vscale a k = (fst a * k, snd a * k)"

definition vlength :: "vec \<Rightarrow> real" where
  "vlength a = sqrt ((fst a)\<^sup>2 + (snd a)\<^sup>2)"

definition vdot :: "vec \<Rightarrow> vec \<Rightarrow> real" where
  "vdot a b = fst a * fst b + snd a * snd b"

definition normalize :: "vec \<Rightarrow> error + vec" where
  "normalize a = (if vlength a = 0 then Inl ValueError
                  else Inr (fst a / vlength a, snd a / vlength a))"

text \<open>
  A car refers to its light by the light's index in \<open>sim.lights\<close> (lights are never
  removed), and the reservation registry \<open>sim.occupied\<close> maps a light's index to the
  id of the car holding it: the source keys both by object identity, and
  \<open>spawn_car\<close> gives every car an id of its own. \<open>self.nodes\<close> and \<open>self.sim\<close> are
  references to the simulator's state and are passed to the functions below.
\<close>

record Car =
  car_path :: "node_id list"
  car_id :: int
  car_edge_idx :: nat
  car_progress :: real
  car_speed :: real
  car_radius :: real
  car_finished :: bool
  car_intersection_target :: "nat option"
  car_pos :: vec

record Simulator =
  sim_map :: mapdata
  sim_nodes :: node_map
  sim_edges :: edge_map
  sim_lights :: "TrafficLight list"
  sim_symbols :: "symbol list"
  sim_cars :: "Car list"
  sim_next_car_id :: int
  sim_occupied :: "nat \<rightharpoonup> int"

text \<open>\<open>self.nodes[k]\<close>.\<close>

definition nodes_at :: "node_map \<Rightarrow> node_id \<Rightarrow> error + vec" where
  "nodes_at ns k = (case map_of ns k of None \<Rightarrow> Inl KeyError | Some p \<Rightarrow> Inr p)"

text \<open>\<open>Car.__init__\<close>; \<open>rnd\<close> is the value drawn by \<open>random.uniform(-15, 15)\<close>.\<close>

definition Car_init :: "node_id list \<Rightarrow> node_map \<Rightarrow> int \<Rightarrow> real \<Rightarrow> error + Car" where
  "Car_init path_nodes ns cid rnd =
     (case (if path_nodes \<noteq> [] then nodes_at ns (hd path_nodes) else Inr (0, 0)) of
        Inl e \<Rightarrow> Inl e
      | Inr p \<Rightarrow>
          Inr \<lparr>car_path = path_nodes, car_id = cid, car_edge_idx = 0, car_progress = 0,
               car_speed = 80 + rnd, car_radius = 6, car_finished = False,
               car_intersection_target = None, car_pos = p\<rparr>)"

text \<open>\<open>sub in s\<close> on strings.\<close>

fun str_contains :: "string \<Rightarrow> string \<Rightarrow> bool" where
  "str_contains sub [] = (sub = [])"
| "str_contains sub (c # cs) = (take (length sub) (c # cs) = sub \<or> str_contains sub cs)"

fun get_edge_type :: "road list \<Rightarrow> node_id \<times> node_id \<Rightarrow> string" where
  "get_edge_type [] edge = ''small''"
| "get_edge_type (r # rs) edge =
     (let tag = ''r'' @ str_int (road_id r) @ ''_''
      in if str_contains tag (str_node (fst edge)) \<or> str_contains tag (str_node (snd edge))
         then (case road_type r of None \<Rightarrow> ''small'' | Some ty \<Rightarrow> ty)
         else get_edge_type rs edge)"

text \<open>The spacing scan: the accumulator is \<open>(leader, min_gap)\<close>, started at
  \<open>(None, 1e9)\<close>.\<close>

definition leader_step :: "Car \<Rightarrow> vec \<Rightarrow> Car \<Rightarrow> Car option \<times> real \<Rightarrow> Car option \<times> real" where
  "leader_step self dir_vec other acc =
     (if car_id other = car_id self \<or> car_finished other then acc
      else (let rel = vsub (car_pos other) (car_pos self); dist = vlength rel
            in if dist < 25 \<and> vdot rel dir_vec > 0 \<and> dist < snd acc then (Some other, dist)
               else acc))"

definition spacing_speed :: "Car \<Rightarrow> vec \<Rightarrow> Car list \<Rightarrow> real" where
  "spacing_speed self dir_vec others =
     (let acc = fold (leader_step self dir_vec) others (None, 1000000000);
          leader = fst acc; min_gap = snd acc
      in if leader \<noteq> None \<and> min_gap < 18 then 0
         else if leader \<noteq> None \<and> min_gap < 40 then min (car_speed self) (car_speed self * 0.5)
         else car_speed self)"

text \<open>
  One round of the traffic-light loop for the light of index \<open>i\<close>; the state is
  \<open>(max_speed, sim.occupied, self.intersection_target)\<close>.
\<close>

definition light_step ::
  "int \<Rightarrow> vec \<Rightarrow> vec \<Rightarrow> nat \<times> TrafficLight \<Rightarrow> real \<times> (nat \<rightharpoonup> int) \<times> nat option
     \<Rightarrow> error + real \<times> (nat \<rightharpoonup> int) \<times> nat option" where
  "light_step cid p dir_vec il st =
     (let i = fst il; lt = snd il;
          max_speed = fst st; occ = fst (snd st); tgt = snd (snd st);
          light_pos = (light_x lt, light_y lt);
          to_light = vsub light_pos p;
          dist = vlength to_light
      in if dist < 80 \<and> vdot to_light dir_vec > 0 then
           (let stop_point = vsub light_pos (vscale dir_vec 25)
            in case is_green_for lt dir_vec of
                 Inl e \<Rightarrow> Inl e
               | Inr g \<Rightarrow>
                   (let ms1 = (if \<not> g \<and> vlength (vsub stop_point p) < 35 then 0 else max_speed);
                        ms2 = (if (case occ i of None \<Rightarrow> False | Some c \<Rightarrow> c \<noteq> cid)
                                  \<and> vlength (vsub light_pos p) < 60 then 0 else ms1)
                    in if g \<and> vlength (vsub light_pos p) < 40
                       then Inr (ms2, occ(i \<mapsto> cid), Some i)
                       else Inr (ms2, occ, tgt)))
         else Inr st)"

fun lights_loop ::
  "int \<Rightarrow> vec \<Rightarrow> vec \<Rightarrow> (nat \<times> TrafficLight) list \<Rightarrow> real \<times> (nat \<rightharpoonup> int) \<times> nat option
     \<Rightarrow> error + real \<times> (nat \<rightharpoonup> int) \<times> nat option" where
  "lights_loop cid p dir_vec [] st = Inr st"
| "lights_loop cid p dir_vec (il # ils) st =
     (case light_step cid p dir_vec il st of
        Inl e \<Rightarrow> Inl e
      | Inr st1 \<Rightarrow> lights_loop cid p dir_vec ils st1)"

text \<open>Releasing the reservation after passing; the state is
  \<open>(sim.occupied, self.intersection_target)\<close>.\<close>

definition release_step ::
  "int \<Rightarrow> vec \<Rightarrow> TrafficLight list \<Rightarrow> (nat \<rightharpoonup> int) \<times> nat option \<Rightarrow> (nat \<rightharpoonup> int) \<times> nat option" where
  "release_step cid p lts st =
     (case snd st of
        None \<Rightarrow> st
      | Some i \<Rightarrow>
          (let light_pos = (light_x (lts ! i), light_y (lts ! i))
           in if vlength (vsub p light_pos) > 60
              then ((if fst st i = Some cid then (fst st)(i := None) else fst st), None)
              else st))"

text \<open>The symbol loop: \<open>None\<close> is the \<open>return\<close> at a \<open>no_entry\<close> symbol ahead.\<close>

fun symbols_loop :: "vec \<Rightarrow> vec \<Rightarrow> symbol list \<Rightarrow> real \<Rightarrow> real option" where
  "symbols_loop p dir_vec [] max_speed = Some max_speed"
| "symbols_loop p dir_vec (s # ss) max_speed =
     (let sym_vec = vsub (sym_x s, sym_y s) p; dist = vlength sym_vec
      in if sym_type s = Some ''slow'' \<and> dist < 50
         then symbols_loop p dir_vec ss (min max_speed 40)
         else if sym_type s = Some ''no_entry'' \<and> vdot sym_vec dir_vec > 0 \<and> dist < 50
         then None
         else symbols_loop p dir_vec ss max_speed)"

text \<open>The last part of \<open>Car.update\<close>, from \<open>move = max_speed * dt\<close> on.\<close>

definition move_step ::
  "node_map \<Rightarrow> string \<Rightarrow> vec \<Rightarrow> vec \<Rightarrow> real \<Rightarrow> real \<Rightarrow> real \<Rightarrow> Car \<Rightarrow> error + Car" where
  "move_step ns road_ty a dir_vec edge_len max_speed dt self =
     (let move = max_speed * dt;
          delta_progress = move / edge_len;
          prog = car_progress self + delta_progress
      in if prog \<ge> 1 then
           (let idx = car_edge_idx self + 1
            in if idx + 1 \<ge> length (car_path self) then
                 (case nodes_at ns (last (car_path self)) of
                    Inl e \<Rightarrow> Inl e
                  | Inr q \<Rightarrow> Inr (self\<lparr>car_progress := prog, car_edge_idx := idx,
                                       car_pos := q, car_finished := True\<rparr>))
               else
                 (case nodes_at ns (car_path self ! idx) of
                    Inl e \<Rightarrow> Inl e
                  | Inr q \<Rightarrow> Inr (self\<lparr>car_progress := 0, car_edge_idx := idx, car_pos := q\<rparr>)))
         else
           (let perp = (- snd dir_vec, fst dir_vec);
                lane_offset =
                  (if road_ty = ''big'' then
                     (if \<bar>fst dir_vec\<bar> \<ge> \<bar>snd dir_vec\<bar>
                      then vscale perp (if fst dir_vec > 0 then 5 else - 5)
                      else vscale perp (if snd dir_vec > 0 then 5 else - 5))
                   else (0, 0))
            in Inr (self\<lparr>car_progress := prog,
                         car_pos := vadd (vadd a (vscale dir_vec (prog * edge_len))) lane_offset\<rparr>)))"

text \<open>\<open>Car.update(dt)\<close>: the car and the registry after the call.\<close>

definition Car_update :: "Simulator \<Rightarrow> Car \<Rightarrow> real \<Rightarrow> error + Car \<times> (nat \<rightharpoonup> int)" where
  "Car_update sim self dt =
     (if car_finished self then Inr (self, sim_occupied sim)
      else if car_edge_idx self + 1 \<ge> length (car_path self)
      then Inr (self\<lparr>car_finished := True\<rparr>, sim_occupied sim)
      else
        (case nodes_at (sim_nodes sim) (car_path self ! car_edge_idx self) of
           Inl e \<Rightarrow> Inl e
         | Inr a \<Rightarrow>
        (case nodes_at (sim_nodes sim) (car_path self ! (car_edge_idx self + 1)) of
           Inl e \<Rightarrow> Inl e
         | Inr b \<Rightarrow>
        (let edge_vec = vsub b a;
             edge_len = (if vlength edge_vec \<noteq> 0 then vlength edge_vec else 1)
         in case normalize edge_vec of
              Inl e \<Rightarrow> Inl e
            | Inr dir_vec \<Rightarrow>
        (let road_ty = get_edge_type (roads (sim_map sim))
                         (car_path self ! car_edge_idx self, car_path self ! (car_edge_idx self + 1));
             max_speed0 = spacing_speed self dir_vec (sim_cars sim)
         in case lights_loop (car_id self) (car_pos self) dir_vec
                   (zip [0 ..< length (sim_lights sim)] (sim_lights sim))
                   (max_speed0, sim_occupied sim, car_intersection_target self) of
              Inl e \<Rightarrow> Inl e
            | Inr st \<Rightarrow>
        (let rel = release_step (car_id self) (car_pos self) (sim_lights sim) (snd st);
             self1 = self\<lparr>car_intersection_target := snd rel\<rparr>
         in case symbols_loop (car_pos self) dir_vec (sim_symbols sim) (fst st) of
              None \<Rightarrow> Inr (self1, fst rel)
            | Some max_speed \<Rightarrow>
                (case move_step (sim_nodes sim) road_ty a dir_vec edge_len max_speed dt self1 of
                   Inl e \<Rightarrow> Inl e
                 | Inr self2 \<Rightarrow> Inr (self2, fst rel))))))))"

text \<open>\<open>Simulator.__init__\<close>, without the window: the state built from a map document.\<close>

definition Simulator_init :: "mapdata \<Rightarrow> error + Simulator" where
  "Simulator_init md =
     (let g = build_graph md 80
      in case load_lights (map_lights md) of
           Inl e \<Rightarrow> Inl e
         | Inr lts \<Rightarrow>
             Inr \<lparr>sim_map = md, sim_nodes = fst g, sim_edges = snd g, sim_lights = lts,
                  sim_symbols = map_symbols md, sim_cars = [], sim_next_car_id = 1,
                  sim_occupied = Map.empty\<rparr>)"

text \<open>\<open>Simulator.spawn_car\<close>: the returned flag and the simulator after the call.\<close>

definition spawn_car ::
  "Simulator \<Rightarrow> node_id \<Rightarrow> node_id \<Rightarrow> real \<Rightarrow> (error + bool \<times> Simulator) option" where
  "spawn_car sim start_id end_id rnd =
     (case find_path (sim_edges sim) start_id end_id None of
        None \<Rightarrow> None
      | Some (Inl e) \<Rightarrow> Some (Inl e)
      | Some (Inr None) \<Rightarrow> Some (Inr (False, sim))
      | Some (Inr (Some path)) \<Rightarrow>
          if path = [] \<or> length path < 2 then Some (Inr (False, sim))
          else (case Car_init path (sim_nodes sim) (sim_next_car_id sim) rnd of
                  Inl e \<Rightarrow> Some (Inl e)
                | Inr car \<Rightarrow>
                    Some (Inr (True, sim\<lparr>sim_next_car_id := sim_next_car_id sim + 1,
                                         sim_cars := sim_cars sim @ [car]\<rparr>))))"

section \<open>simulator.py: loading a map document\<close>

text \<open>
  The map document as \<open>json.load\<close> returns it: an entry is a dictionary in which any key
  may be absent (\<open>None\<close>), and so may each of the four collections.
\<close>

record road_doc =
  rd_id :: "int option"
  rd_x :: "real option"
  rd_y :: "real option"
  rd_w :: "real option"
  rd_h :: "real option"
  rd_type :: "string option"

record hub_doc =
  hb_id :: "int option"
  hb_x :: "real option"
  hb_y :: "real option"

record map_doc =
  doc_roads :: "road_doc list option"
  doc_hubs :: "hub_doc list option"
  doc_symbols :: "symbol list option"
  doc_lights :: "(string \<rightharpoonup> real) list option"

text \<open>\<open>mapdata.get(key, [])\<close>.\<close>

definition get_list :: "'a list option \<Rightarrow> 'a list" where
  "get_list v = (case v of None \<Rightarrow> [] | Some xs \<Rightarrow> xs)"

text \<open>
  The reads \<open>r['id']\<close>, \<open>r['x']\<close>, \<open>r['y']\<close>, \<open>r['w']\<close>, \<open>r['h']\<close> of step 1 of
  \<open>build_graph\<close> and \<open>h['id']\<close>, \<open>h['x']\<close>, \<open>h['y']\<close> of its step 4: an absent key raises
  KeyError. The road's \<open>type\<close> is only ever read with \<open>r.get('type', 'small')\<close>.
\<close>

definition road_of_doc :: "road_doc \<Rightarrow> error + road" where
  "road_of_doc r =
     (case rd_id r of None \<Rightarrow> Inl KeyError | Some rid \<Rightarrow>
     (case rd_x r of None \<Rightarrow> Inl KeyError | Some x \<Rightarrow>
     (case rd_y r of None \<Rightarrow> Inl KeyError | Some y \<Rightarrow>
     (case rd_w r of None \<Rightarrow> Inl KeyError | Some w \<Rightarrow>
     (case rd_h r of None \<Rightarrow> Inl KeyError | Some h \<Rightarrow>
        Inr \<lparr>road_id = rid, road_x = x, road_y = y, road_w = w, road_h = h,
             road_type = rd_type r\<rparr>)))))"

definition hub_of_doc :: "hub_doc \<Rightarrow> error + hub" where
  "hub_of_doc h =
     (case hb_id h of None \<Rightarrow> Inl KeyError | Some hid \<Rightarrow>
     (case hb_x h of None \<Rightarrow> Inl KeyError | Some x \<Rightarrow>
     (case hb_y h of None \<Rightarrow> Inl KeyError | Some y \<Rightarrow>
        Inr \<lparr>hub_id = hid, hub_x = x, hub_y = y\<rparr>)))"

text \<open>Reading the entries in order; the first exception ends the loop.\<close>

fun read_entries :: "('a \<Rightarrow> error + 'b) \<Rightarrow> 'a list \<Rightarrow> error + 'b list" where
  "read_entries f [] = Inr []"
| "read_entries f (x # xs) =
     (case f x of
        Inl e \<Rightarrow> Inl e
      | Inr y \<Rightarrow> (case read_entries f xs of Inl e \<Rightarrow> Inl e | Inr ys \<Rightarrow> Inr (y # ys)))"

text \<open>
  \<open>build_graph\<close> builds its nodes and edges in local variables and reads the fields of
  every road before those of any hub, so an absent key leaves nothing behind but the
  KeyError. \<open>mapdata_of_doc\<close> does these reads, roads first, and hands the entries read to
  \<open>build_graph\<close>. The symbols are stored unread, the light entries are read by
  \<open>TrafficLight.__init__\<close> after the graph is built.
\<close>

definition mapdata_of_doc :: "map_doc \<Rightarrow> error + mapdata" where
  "mapdata_of_doc doc =
     (case read_entries road_of_doc (get_list (doc_roads doc)) of
        Inl e \<Rightarrow> Inl e
      | Inr rs \<Rightarrow>
          (case read_entries hub_of_doc (get_list (doc_hubs doc)) of
             Inl e \<Rightarrow> Inl e
           | Inr hs \<Rightarrow>
               Inr \<lparr>roads = rs, hubs = hs, map_symbols = get_list (doc_symbols doc),
                    map_lights = get_list (doc_lights doc)\<rparr>))"

text \<open>\<open>Simulator.__init__\<close> on the document as loaded.\<close>

definition Simulator_load :: "map_doc \<Rightarrow> error + Simulator" where
  "Simulator_load doc =
     (case mapdata_of_doc doc of Inl e \<Rightarrow> Inl e | Inr md \<Rightarrow> Simulator_init md)"

section \<open>Predicates of the verification\<close>

text \<open>
  The heap property that \<open>heapq\<close> keeps, on the costs alone (the first components of the
  queue entries), and the same property for a heap whose entry at \<open>pos\<close> is being moved.
\<close>

definition heap_ok :: "item list \<Rightarrow> bool" where
  "heap_ok h = (\<forall>i. 0 < i \<and> i < length h \<longrightarrow> fst (h ! ((i - 1) div 2)) \<le> fst (h ! i))"

definition hole_ok :: "item list \<Rightarrow> nat \<Rightarrow> bool" where
  "hole_ok h pos =
     ((\<forall>i. 0 < i \<and> i < length h \<and> i \<noteq> pos \<and> (i - 1) div 2 \<noteq> pos
           \<longrightarrow> fst (h ! ((i - 1) div 2)) \<le> fst (h ! i)) \<and>
      (\<forall>k. 0 < pos \<and> 0 < k \<and> k < length h \<and> (k - 1) div 2 = pos
           \<longrightarrow> fst (h ! ((pos - 1) div 2)) \<le> fst (h ! k)))"

text \<open>
  Symmetry of an edge map, and the invariant of \<open>build_graph\<close> behind it: the edge map
  is symmetric, every node with a non-empty adjacency list is a key of the node map, and
  the integer keys of the node map are the ids of the hubs added so far (\<open>P\<close>).
\<close>

definition symmetric_edges :: "edge_map \<Rightarrow> bool" where
  "symmetric_edges es = (\<forall>u v w. (v, w) \<in> set (edges_get es u) \<longrightarrow> (u, w) \<in> set (edges_get es v))"

definition graph_inv :: "int set \<Rightarrow> node_map \<times> edge_map \<Rightarrow> bool" where
  "graph_inv P g =
     (symmetric_edges (snd g) \<and>
      (\<forall>n. edges_get (snd g) n \<noteq> [] \<longrightarrow> n \<in> fst ` set (fst g)) \<and>
      (\<forall>i. IntId i \<in> fst ` set (fst g) \<longrightarrow> i \<in> P))"

text \<open>
  Walks of the graph from a start node, with their cost: the sum, over the edges taken,
  of the cost \<open>edge_cost\<close> that \<open>find_path\<close> charges for an edge. The invariant of the
  \<open>while\<close> loop of \<open>find_path\<close> (\<open>route_inv\<close>), what its result must satisfy
  (\<open>route_post\<close>), the invariant behind its termination (\<open>term_inv\<close>), and graphs whose
  node ids are all strings or all integers (\<open>uniform_ids\<close>).
\<close>

inductive walk :: "edge_map \<Rightarrow> traffic \<Rightarrow> node_id \<Rightarrow> node_id list \<Rightarrow> real \<Rightarrow> bool"
  for es :: edge_map and tc :: traffic and s :: node_id where
  walk_start: "walk es tc s [s] 0"
| walk_step: "walk es tc s p c \<Longrightarrow> (v, w) \<in> set (edges_get es (last p)) \<Longrightarrow>
     walk es tc s (p @ [v]) (c + edge_cost tc (last p) v w)"

definition nonneg_costs :: "edge_map \<Rightarrow> traffic \<Rightarrow> bool" where
  "nonneg_costs es tc = (\<forall>u v w. (v, w) \<in> set (edges_get es u) \<longrightarrow> 0 \<le> edge_cost tc u v w)"

definition route_inv ::
  "edge_map \<Rightarrow> traffic \<Rightarrow> node_id \<Rightarrow> node_id \<Rightarrow> item list \<Rightarrow> (node_id \<rightharpoonup> real) \<Rightarrow> bool" where
  "route_inv es tc s goal pq seen =
     (heap_ok pq \<and>
      (\<forall>it \<in> set pq. walk es tc s (snd (snd it)) (fst it) \<and> last (snd (snd it)) = fst (snd it)) \<and>
      seen goal = None \<and>
      ((\<exists>c. seen s = Some c \<and> c \<le> 0) \<or> (\<exists>it \<in> set pq. fst it \<le> 0 \<and> fst (snd it) = s)) \<and>
      (\<forall>u cu v w. seen u = Some cu \<and> (v, w) \<in> set (edges_get es u) \<longrightarrow>
          (\<exists>cv. seen v = Some cv \<and> cv \<le> cu + edge_cost tc u v w) \<or>
          (\<exists>it \<in> set pq. fst (snd it) = v \<and> fst it \<le> cu + edge_cost tc u v w)))"

definition route_post ::
  "edge_map \<Rightarrow> traffic \<Rightarrow> node_id \<Rightarrow> node_id \<Rightarrow> error + node_id list option \<Rightarrow> bool" where
  "route_post es tc s goal r =
     (case r of
        Inl e \<Rightarrow> e = TypeError
      | Inr None \<Rightarrow> nonneg_costs es tc \<longrightarrow> \<not> (\<exists>q c. walk es tc s q c \<and> last q = goal)
      | Inr (Some p) \<Rightarrow>
          (\<exists>c. walk es tc s p c \<and> last p = goal \<and>
               (nonneg_costs es tc \<longrightarrow> (\<forall>q c'. walk es tc s q c' \<and> last q = goal \<longrightarrow> c \<le> c'))))"

definition targets :: "edge_map \<Rightarrow> node_id set" where
  "targets es = (\<Union>adj \<in> snd ` set es. fst ` set adj)"

definition term_inv ::
  "edge_map \<Rightarrow> node_id \<Rightarrow> item list \<Rightarrow> (node_id \<rightharpoonup> real) \<Rightarrow> bool" where
  "term_inv es s pq seen =
     (heap_ok pq \<and>
      (\<forall>it \<in> set pq. fst (snd it) \<in> insert s (targets es)) \<and>
      (\<forall>it \<in> set pq. \<forall>u c. seen u = Some c \<longrightarrow> c \<le> fst it))"

fun is_str :: "node_id \<Rightarrow> bool" where
  "is_str (StrId a) = True"
| "is_str (IntId i) = False"

definition item_kind :: "bool \<Rightarrow> item \<Rightarrow> bool" where
  "item_kind k it = (is_str (fst (snd it)) = k \<and> (\<forall>n \<in> set (snd (snd it)). is_str n = k))"

definition uniform_ids :: "edge_map \<Rightarrow> node_id \<Rightarrow> bool" where
  "uniform_ids es s = (\<forall>n \<in> targets es. is_str n = is_str s)"

text \<open>Entries that have every key read at load time.\<close>

definition road_complete :: "road_doc \<Rightarrow> bool" where
  "road_complete r =
     (rd_id r \<noteq> None \<and> rd_x r \<noteq> None \<and> rd_y r \<noteq> None \<and> rd_w r \<noteq> None \<and> rd_h r \<noteq> None)"

definition hub_complete :: "hub_doc \<Rightarrow> bool" where
  "hub_complete h = (hb_id h \<noteq> None \<and> hb_x h \<noteq> None \<and> hb_y h \<noteq> None)"

definition light_complete :: "(string \<rightharpoonup> real) \<Rightarrow> bool" where
  "light_complete d = (d ''x'' \<noteq> None \<and> d ''y'' \<noteq> None)"

section \<open>Traffic light phase\<close>

text \<open>
  C5. With a cycle \<open>green + red\<close> other than zero, the phase is \<open>t mod (green + red)\<close>;
  a direction with \<open>|dx| > |dy|\<close> (horizontal) is green exactly when the phase is below
  \<open>green\<close>, every other direction (vertical) exactly when the phase is at least \<open>green\<close>,
  so a horizontal and a vertical direction are never green together. For green 6 and
  red 4, at time 3 horizontal is green and vertical red, at time 7 the other way round.
\<close>

theorem is_green_for_phase:
  assumes "light_green lt + light_red lt \<noteq> 0"
  shows "\<exists>phase. py_mod (light_t lt) (light_green lt + light_red lt) = Inr phase \<and>
           phase = light_t lt - (light_green lt + light_red lt) *
                     of_int \<lfloor>light_t lt / (light_green lt + light_red lt)\<rfloor> \<and>
           (\<bar>fst h\<bar> > \<bar>snd h\<bar> \<longrightarrow> is_green_for lt h = Inr (phase < light_green lt)) \<and>
           (\<bar>fst v\<bar> \<le> \<bar>snd v\<bar> \<longrightarrow> is_green_for lt v = Inr (phase \<ge> light_green lt)) \<and>
           (\<bar>fst h\<bar> > \<bar>snd h\<bar> \<and> \<bar>fst v\<bar> \<le> \<bar>snd v\<bar> \<longrightarrow>
              \<not> (is_green_for lt h = Inr True \<and> is_green_for lt v = Inr True)) \<and>
           is_green_for (lt\<lparr>light_green := 6, light_red := 4, light_t := 3\<rparr>) (1, 0) = Inr True \<and>
           is_green_for (lt\<lparr>light_green := 6, light_red := 4, light_t := 3\<rparr>) (0, 1) = Inr False \<and>
           is_green_for (lt\<lparr>light_green := 6, light_red := 4, light_t := 7\<rparr>) (1, 0) = Inr False \<and>
           is_green_for (lt\<lparr>light_green := 6, light_red := 4, light_t := 7\<rparr>) (0, 1) = Inr True"
proof -
  have f3: "\<lfloor>(3::real) / 10\<rfloor> = 0" by simp
  have f7: "\<lfloor>(7::real) / 10\<rfloor> = 0" by simp
  show ?thesis
    using assms by (auto simp: is_green_for_def py_mod_def f3 f7)
qed

theorem is_green_for_phase_witness:
  "is_green_for \<lparr>light_x = 0, light_y = 0, light_green = 6, light_red = 4,
                  light_offset = 0, light_t = 13\<rparr> (2, 1) = Inr True \<and>
   is_green_for \<lparr>light_x = 0, light_y = 0, light_green = 6, light_red = 4,
                  light_offset = 0, light_t = 13\<rparr> (1, 1) = Inr False"
proof -
  let ?lt = "\<lparr>light_x = 0, light_y = 0, light_green = 6, light_red = 4,
              light_offset = 0, light_t = 13\<rparr>"
  have c: "light_green ?lt + light_red ?lt \<noteq> 0" by simp
  have fl: "\<lfloor>(13::real) / 10\<rfloor> = 1" by simp
  from is_green_for_phase [OF c, of "(2, 1)" "(1, 1)"] show ?thesis
    by (simp add: fl)
qed

section \<open>Loading lights\<close>

lemma load_lights_fails:
  "TrafficLight_init d = Inl e \<Longrightarrow> \<exists>e'. load_lights (ds @ d # ds') = Inl e'"
  by (induction ds) (auto split: sum.splits)

text \<open>
  C3, as stated, fails: a light entry with neither \<open>green\<close> nor \<open>red\<close> nor \<open>offset\<close>
  loads, and takes the defaults 6, 6 and 0.
\<close>

theorem load_lights_defaults_counterexample:
  "load_lights [[''x'' \<mapsto> 10, ''y'' \<mapsto> 20]] =
     Inr [\<lparr>light_x = 10, light_y = 20, light_green = 6, light_red = 6,
           light_offset = 0, light_t = 0\<rparr>]"
  by (simp add: TrafficLight_init_def dict_get_def)

text \<open>What \<open>TrafficLight.__init__\<close> does with one entry.\<close>

lemma TrafficLight_init_fields:
  "(d ''x'' = None \<or> d ''y'' = None \<longrightarrow>
      TrafficLight_init d = Inl KeyError \<and> (\<exists>e. load_lights (ds @ d # ds') = Inl e)) \<and>
   (d ''x'' = Some vx \<and> d ''y'' = Some vy \<longrightarrow>
      TrafficLight_init d =
        Inr \<lparr>light_x = vx, light_y = vy,
             light_green = (case d ''green'' of None \<Rightarrow> 6 | Some g \<Rightarrow> g),
             light_red = (case d ''red'' of None \<Rightarrow> 6 | Some r \<Rightarrow> r),
             light_offset = (case d ''offset'' of None \<Rightarrow> 0 | Some off \<Rightarrow> off),
             light_t = (case d ''offset'' of None \<Rightarrow> 0 | Some off \<Rightarrow> off)\<rparr>)"
proof (intro conjI impI)
  assume a: "d ''x'' = None \<or> d ''y'' = None"
  then show k: "TrafficLight_init d = Inl KeyError"
    by (auto simp: TrafficLight_init_def split: option.splits)
  from load_lights_fails [OF k] show "\<exists>e. load_lights (ds @ d # ds') = Inl e" .
next
  assume "d ''x'' = Some vx \<and> d ''y'' = Some vy"
  then show "TrafficLight_init d =
        Inr \<lparr>light_x = vx, light_y = vy,
             light_green = (case d ''green'' of None \<Rightarrow> 6 | Some g \<Rightarrow> g),
             light_red = (case d ''red'' of None \<Rightarrow> 6 | Some r \<Rightarrow> r),
             light_offset = (case d ''offset'' of None \<Rightarrow> 0 | Some off \<Rightarrow> off),
             light_t = (case d ''offset'' of None \<Rightarrow> 0 | Some off \<Rightarrow> off)\<rparr>"
    by (simp add: TrafficLight_init_def dict_get_def)
qed

lemma road_of_doc_error: "road_of_doc r = Inl e \<Longrightarrow> e = KeyError"
  by (auto simp: road_of_doc_def split: option.splits)

lemma hub_of_doc_error: "hub_of_doc h = Inl e \<Longrightarrow> e = KeyError"
  by (auto simp: hub_of_doc_def split: option.splits)

lemma road_of_doc_complete: "(\<exists>y. road_of_doc r = Inr y) \<longleftrightarrow> road_complete r"
  by (auto simp: road_of_doc_def road_complete_def split: option.splits)

lemma hub_of_doc_complete: "(\<exists>y. hub_of_doc h = Inr y) \<longleftrightarrow> hub_complete h"
  by (auto simp: hub_of_doc_def hub_complete_def split: option.splits)

lemma read_entries_error:
  "read_entries f xs = Inl e \<Longrightarrow> \<exists>x \<in> set xs. f x = Inl e"
  by (induction xs arbitrary: e) (auto split: sum.splits)

lemma read_entries_fails:
  "x \<in> set xs \<Longrightarrow> f x = Inl e \<Longrightarrow> \<exists>e'. read_entries f xs = Inl e'"
  by (induction xs) (auto split: sum.splits)

lemma read_entries_ok:
  "\<forall>x \<in> set xs. \<exists>y. f x = Inr y \<Longrightarrow> \<exists>ys. read_entries f xs = Inr ys"
  by (induction xs) (auto split: sum.splits)

lemma TrafficLight_init_error: "TrafficLight_init d = Inl e \<Longrightarrow> e = KeyError"
  by (auto simp: TrafficLight_init_def split: option.splits)

lemma TrafficLight_init_complete:
  "light_complete d \<Longrightarrow>
   TrafficLight_init d =
     Inr \<lparr>light_x = the (d ''x''), light_y = the (d ''y''),
          light_green = dict_get d ''green'' 6, light_red = dict_get d ''red'' 6,
          light_offset = dict_get d ''offset'' 0, light_t = dict_get d ''offset'' 0\<rparr>"
  by (auto simp: TrafficLight_init_def light_complete_def)

lemma load_lights_error: "load_lights ds = Inl e \<Longrightarrow> e = KeyError"
  by (induction ds arbitrary: e) (auto split: sum.splits dest: TrafficLight_init_error)

lemma load_lights_incomplete:
  "d \<in> set ds \<Longrightarrow> \<not> light_complete d \<Longrightarrow> load_lights ds = Inl KeyError"
proof (induction ds)
  case Nil
  then show ?case by simp
next
  case (Cons x xs)
  show ?case
  proof (cases "TrafficLight_init x")
    case (Inl e)
    with TrafficLight_init_error [OF Inl] show ?thesis by simp
  next
    case (Inr l)
    then have "light_complete x"
      by (auto simp: TrafficLight_init_def light_complete_def split: option.splits)
    with Cons.prems have "d \<in> set xs" by auto
    from Cons.IH [OF this Cons.prems(2)] Inr show ?thesis by simp
  qed
qed

lemma load_lights_complete:
  "\<forall>d \<in> set ds. light_complete d \<Longrightarrow>
   \<exists>lts. load_lights ds = Inr lts \<and> length lts = length ds \<and>
     (\<forall>i < length ds. light_green (lts ! i) = dict_get (ds ! i) ''green'' 6 \<and>
                       light_red (lts ! i) = dict_get (ds ! i) ''red'' 6 \<and>
                       light_offset (lts ! i) = dict_get (ds ! i) ''offset'' 0)"
proof (induction ds)
  case Nil
  then show ?case by simp
next
  case (Cons d ds)
  then obtain lts where l: "load_lights ds = Inr lts" "length lts = length ds"
    "\<forall>i < length ds. light_green (lts ! i) = dict_get (ds ! i) ''green'' 6 \<and>
                       light_red (lts ! i) = dict_get (ds ! i) ''red'' 6 \<and>
                       light_offset (lts ! i) = dict_get (ds ! i) ''offset'' 0"
    by auto
  from Cons.prems have "light_complete d" by simp
  note t = TrafficLight_init_complete [OF this]
  show ?case
    using l t by (auto simp: nth_Cons split: nat.splits)
qed

lemma Simulator_load_error: "Simulator_load doc = Inl e \<Longrightarrow> e = KeyError"
proof -
  assume a: "Simulator_load doc = Inl e"
  show ?thesis
  proof (cases "mapdata_of_doc doc")
    case (Inl e')
    with a have e: "e' = e" by (simp add: Simulator_load_def)
    from Inl show ?thesis unfolding e mapdata_of_doc_def
      by (auto split: sum.splits dest!: read_entries_error dest: road_of_doc_error hub_of_doc_error)
  next
    case (Inr md)
    with a have "Simulator_init md = Inl e" by (simp add: Simulator_load_def)
    then show ?thesis
      by (auto simp: Simulator_init_def Let_def split: sum.splits dest: load_lights_error)
  qed
qed

lemma Simulator_load_incomplete:
  assumes "(\<exists>r \<in> set (get_list (doc_roads doc)). \<not> road_complete r) \<or>
           (\<exists>h \<in> set (get_list (doc_hubs doc)). \<not> hub_complete h) \<or>
           (\<exists>d \<in> set (get_list (doc_lights doc)). \<not> light_complete d)"
  shows "Simulator_load doc = Inl KeyError"
proof -
  have "\<exists>e. Simulator_load doc = Inl e"
  proof (cases "read_entries road_of_doc (get_list (doc_roads doc))")
    case (Inl e)
    then show ?thesis by (simp add: Simulator_load_def mapdata_of_doc_def)
  next
    case (Inr rs)
    have rc: "\<forall>r \<in> set (get_list (doc_roads doc)). road_complete r"
    proof (rule ccontr)
      assume "\<not> ?thesis"
      then obtain r where r: "r \<in> set (get_list (doc_roads doc))" "\<not> road_complete r" by blast
      then obtain e where "road_of_doc r = Inl e"
        using road_of_doc_complete [of r] by (cases "road_of_doc r") auto
      from read_entries_fails [of r _ road_of_doc, OF r(1) this] Inr show False by simp
    qed
    show ?thesis
    proof (cases "read_entries hub_of_doc (get_list (doc_hubs doc))")
      case (Inl e)
      with Inr show ?thesis by (simp add: Simulator_load_def mapdata_of_doc_def)
    next
      case hs: (Inr hs)
      have hc: "\<forall>h \<in> set (get_list (doc_hubs doc)). hub_complete h"
      proof (rule ccontr)
        assume "\<not> ?thesis"
        then obtain h where h: "h \<in> set (get_list (doc_hubs doc))" "\<not> hub_complete h" by blast
        then obtain e where "hub_of_doc h = Inl e"
          using hub_of_doc_complete [of h] by (cases "hub_of_doc h") auto
        from read_entries_fails [of h _ hub_of_doc, OF h(1) this] hs show False by simp
      qed
      from assms rc hc obtain d where "d \<in> set (get_list (doc_lights doc))" "\<not> light_complete d"
        by blast
      from load_lights_incomplete [OF this] Inr hs show ?thesis
        by (simp add: Simulator_load_def mapdata_of_doc_def Simulator_init_def Let_def)
    qed
  qed
  then obtain e where "Simulator_load doc = Inl e" by blast
  with Simulator_load_error [OF this] show ?thesis by simp
qed

lemma Simulator_load_complete:
  assumes "\<forall>r \<in> set (get_list (doc_roads doc)). road_complete r"
    and "\<forall>h \<in> set (get_list (doc_hubs doc)). hub_complete h"
    and "\<forall>d \<in> set (get_list (doc_lights doc)). light_complete d"
  shows "\<exists>sim. Simulator_load doc = Inr sim \<and>
           length (sim_lights sim) = length (get_list (doc_lights doc)) \<and>
           (\<forall>i < length (get_list (doc_lights doc)).
              light_green (sim_lights sim ! i) = dict_get (get_list (doc_lights doc) ! i) ''green'' 6 \<and>
              light_red (sim_lights sim ! i) = dict_get (get_list (doc_lights doc) ! i) ''red'' 6 \<and>
              light_offset (sim_lights sim ! i) = dict_get (get_list (doc_lights doc) ! i) ''offset'' 0)"
proof -
  from assms(1) obtain rs where rs: "read_entries road_of_doc (get_list (doc_roads doc)) = Inr rs"
    using read_entries_ok [of "get_list (doc_roads doc)" road_of_doc] road_of_doc_complete by blast
  from assms(2) obtain hs where hs: "read_entries hub_of_doc (get_list (doc_hubs doc)) = Inr hs"
    using read_entries_ok [of "get_list (doc_hubs doc)" hub_of_doc] hub_of_doc_complete by blast
  from load_lights_complete [OF assms(3)] obtain lts
    where l: "load_lights (get_list (doc_lights doc)) = Inr lts"
      "length lts = length (get_list (doc_lights doc))"
      "\<forall>i < length (get_list (doc_lights doc)).
         light_green (lts ! i) = dict_get (get_list (doc_lights doc) ! i) ''green'' 6 \<and>
         light_red (lts ! i) = dict_get (get_list (doc_lights doc) ! i) ''red'' 6 \<and>
         light_offset (lts ! i) = dict_get (get_list (doc_lights doc) ! i) ''offset'' 0"
    by blast
  from rs hs l show ?thesis
    by (simp add: Simulator_load_def mapdata_of_doc_def Simulator_init_def Let_def)
qed

text \<open>
  C3, amended. Loading a map document in which some road entry lacks \<open>id\<close>, \<open>x\<close>, \<open>y\<close>,
  \<open>w\<close> or \<open>h\<close>, some hub entry lacks \<open>id\<close>, \<open>x\<close> or \<open>y\<close>, or some light entry lacks \<open>x\<close>
  or \<open>y\<close> fails with KeyError: no simulator is built. A document in which no entry lacks
  any of these keys loads, with one light per light entry; a light entry without
  \<open>green\<close>, \<open>red\<close> or \<open>offset\<close> is accepted and gets the default 6, 6 or 0.
\<close>

theorem load_missing_fields:
  "((\<exists>r \<in> set (get_list (doc_roads doc)).
        rd_id r = None \<or> rd_x r = None \<or> rd_y r = None \<or> rd_w r = None \<or> rd_h r = None) \<or>
    (\<exists>h \<in> set (get_list (doc_hubs doc)). hb_id h = None \<or> hb_x h = None \<or> hb_y h = None) \<or>
    (\<exists>d \<in> set (get_list (doc_lights doc)). d ''x'' = None \<or> d ''y'' = None)
      \<longrightarrow> Simulator_load doc = Inl KeyError) \<and>
   (\<not> ((\<exists>r \<in> set (get_list (doc_roads doc)).
        rd_id r = None \<or> rd_x r = None \<or> rd_y r = None \<or> rd_w r = None \<or> rd_h r = None) \<or>
    (\<exists>h \<in> set (get_list (doc_hubs doc)). hb_id h = None \<or> hb_x h = None \<or> hb_y h = None) \<or>
    (\<exists>d \<in> set (get_list (doc_lights doc)). d ''x'' = None \<or> d ''y'' = None))
      \<longrightarrow> (\<exists>sim. Simulator_load doc = Inr sim \<and>
             length (sim_lights sim) = length (get_list (doc_lights doc)) \<and>
             (\<forall>i < length (get_list (doc_lights doc)).
                light_green (sim_lights sim ! i) =
                  (case (get_list (doc_lights doc) ! i) ''green'' of None \<Rightarrow> 6 | Some g \<Rightarrow> g) \<and>
                light_red (sim_lights sim ! i) =
                  (case (get_list (doc_lights doc) ! i) ''red'' of None \<Rightarrow> 6 | Some r \<Rightarrow> r) \<and>
                light_offset (sim_lights sim ! i) =
                  (case (get_list (doc_lights doc) ! i) ''offset'' of None \<Rightarrow> 0 | Some off \<Rightarrow> off))))"
proof (intro conjI impI)
  assume "(\<exists>r \<in> set (get_list (doc_roads doc)).
        rd_id r = None \<or> rd_x r = None \<or> rd_y r = None \<or> rd_w r = None \<or> rd_h r = None) \<or>
    (\<exists>h \<in> set (get_list (doc_hubs doc)). hb_id h = None \<or> hb_x h = None \<or> hb_y h = None) \<or>
    (\<exists>d \<in> set (get_list (doc_lights doc)). d ''x'' = None \<or> d ''y'' = None)"
  then have "(\<exists>r \<in> set (get_list (doc_roads doc)). \<not> road_complete r) \<or>
           (\<exists>h \<in> set (get_list (doc_hubs doc)). \<not> hub_complete h) \<or>
           (\<exists>d \<in> set (get_list (doc_lights doc)). \<not> light_complete d)"
    unfolding road_complete_def hub_complete_def light_complete_def by blast
  then show "Simulator_load doc = Inl KeyError" by (rule Simulator_load_incomplete)
next
  assume "\<not> ((\<exists>r \<in> set (get_list (doc_roads doc)).
        rd_id r = None \<or> rd_x r = None \<or> rd_y r = None \<or> rd_w r = None \<or> rd_h r = None) \<or>
    (\<exists>h \<in> set (get_list (doc_hubs doc)). hb_id h = None \<or> hb_x h = None \<or> hb_y h = None) \<or>
    (\<exists>d \<in> set (get_list (doc_lights doc)). d ''x'' = None \<or> d ''y'' = None))"
  then have c: "\<forall>r \<in> set (get_list (doc_roads doc)). road_complete r"
    "\<forall>h \<in> set (get_list (doc_hubs doc)). hub_complete h"
    "\<forall>d \<in> set (get_list (doc_lights doc)). light_complete d"
    unfolding road_complete_def hub_complete_def light_complete_def by auto
  from Simulator_load_complete [OF c] show "\<exists>sim. Simulator_load doc = Inr sim \<and>
             length (sim_lights sim) = length (get_list (doc_lights doc)) \<and>
             (\<forall>i < length (get_list (doc_lights doc)).
                light_green (sim_lights sim ! i) =
                  (case (get_list (doc_lights doc) ! i) ''green'' of None \<Rightarrow> 6 | Some g \<Rightarrow> g) \<and>
                light_red (sim_lights sim ! i) =
                  (case (get_list (doc_lights doc) ! i) ''red'' of None \<Rightarrow> 6 | Some r \<Rightarrow> r) \<and>
                light_offset (sim_lights sim ! i) =
                  (case (get_list (doc_lights doc) ! i) ''offset'' of None \<Rightarrow> 0 | Some off \<Rightarrow> off))"
    by (simp add: dict_get_def)
qed

theorem load_missing_fields_witness:
  "Simulator_load
     \<lparr>doc_roads = Some [\<lparr>rd_id = Some 1, rd_x = Some 0, rd_y = Some 0, rd_w = None,
                          rd_h = Some 20, rd_type = Some ''big''\<rparr>],
      doc_hubs = Some [\<lparr>hb_id = Some 1, hb_x = Some 0, hb_y = Some 0\<rparr>],
      doc_symbols = None,
      doc_lights = Some [[''x'' \<mapsto> 10, ''y'' \<mapsto> 20, ''green'' \<mapsto> 5, ''red'' \<mapsto> 5]]\<rparr>
     = Inl KeyError \<and>
   (\<exists>sim. Simulator_load
      \<lparr>doc_roads = Some [\<lparr>rd_id = Some 1, rd_x = Some 0, rd_y = Some 0, rd_w = Some 100,
                           rd_h = Some 20, rd_type = None\<rparr>],
       doc_hubs = Some [\<lparr>hb_id = Some 1, hb_x = Some 0, hb_y = Some 0\<rparr>],
       doc_symbols = None,
       doc_lights = Some [[''x'' \<mapsto> 10, ''y'' \<mapsto> 20, ''red'' \<mapsto> 4]]\<rparr> = Inr sim \<and>
      length (sim_lights sim) = 1 \<and>
      light_green (sim_lights sim ! 0) = 6 \<and> light_red (sim_lights sim ! 0) = 4 \<and>
      light_offset (sim_lights sim ! 0) = 0)"
  using load_missing_fields
      [of "\<lparr>doc_roads = Some [\<lparr>rd_id = Some 1, rd_x = Some 0, rd_y = Some 0, rd_w = None,
                          rd_h = Some 20, rd_type = Some ''big''\<rparr>],
      doc_hubs = Some [\<lparr>hb_id = Some 1, hb_x = Some 0, hb_y = Some 0\<rparr>],
      doc_symbols = None,
      doc_lights = Some [[''x'' \<mapsto> 10, ''y'' \<mapsto> 20, ''green'' \<mapsto> 5, ''red'' \<mapsto> 5]]\<rparr>"]
    load_missing_fields
      [of "\<lparr>doc_roads = Some [\<lparr>rd_id = Some 1, rd_x = Some 0, rd_y = Some 0, rd_w = Some 100,
                           rd_h = Some 20, rd_type = None\<rparr>],
       doc_hubs = Some [\<lparr>hb_id = Some 1, hb_x = Some 0, hb_y = Some 0\<rparr>],
       doc_symbols = None,
       doc_lights = Some [[''x'' \<mapsto> 10, ''y'' \<mapsto> 20, ''red'' \<mapsto> 4]]\<rparr>"]
  by (simp add: get_list_def)

section \<open>Routing from a node to itself\<close>

lemma heappop_single: "heappop [it] = Inr (it, [])"
  by (simp add: heappop_def)

lemma find_path_same:
  "map_of es s \<noteq> None \<Longrightarrow> find_path es s s traffic_counts = Some (Inr (Some [s]))"
  by (simp add: find_path_def find_path_loop.simps [of es s _ "[(0, s, [s])]"] heappop_single)

text \<open>
  C10. For a node \<open>s\<close> that is a key of the edge map, whatever its adjacency list,
  \<open>find_path\<close> from \<open>s\<close> to \<open>s\<close> returns the path \<open>[s]\<close> at the first pop, and \<open>spawn_car\<close>
  from \<open>s\<close> to \<open>s\<close> turns that path down for its length: it returns False and leaves the
  simulator as it was.
\<close>

theorem find_path_start_is_goal:
  assumes "map_of es s \<noteq> None"
  shows "find_path es s s traffic_counts = Some (Inr (Some [s])) \<and>
         spawn_car (sim\<lparr>sim_edges := es\<rparr>) s s rnd = Some (Inr (False, sim\<lparr>sim_edges := es\<rparr>))"
  using assms by (simp add: find_path_same spawn_car_def)

theorem find_path_start_is_goal_witness:
  "find_path [(IntId 7, [])] (IntId 7) (IntId 7) None = Some (Inr (Some [IntId 7])) \<and>
   spawn_car
     \<lparr>sim_map = \<lparr>roads = [], hubs = [\<lparr>hub_id = 7, hub_x = 0, hub_y = 0\<rparr>],
                 map_symbols = [], map_lights = []\<rparr>,
      sim_nodes = [(IntId 7, (0, 0))], sim_edges = [(IntId 7, [])], sim_lights = [],
      sim_symbols = [], sim_cars = [], sim_next_car_id = 1, sim_occupied = Map.empty\<rparr>
     (IntId 7) (IntId 7) 3 =
   Some (Inr (False,
     \<lparr>sim_map = \<lparr>roads = [], hubs = [\<lparr>hub_id = 7, hub_x = 0, hub_y = 0\<rparr>],
                 map_symbols = [], map_lights = []\<rparr>,
      sim_nodes = [(IntId 7, (0, 0))], sim_edges = [(IntId 7, [])], sim_lights = [],
      sim_symbols = [], sim_cars = [], sim_next_car_id = 1, sim_occupied = Map.empty\<rparr>))"
  using find_path_start_is_goal [of "[(IntId 7, [])]" "IntId 7" None
    "\<lparr>sim_map = \<lparr>roads = [], hubs = [\<lparr>hub_id = 7, hub_x = 0, hub_y = 0\<rparr>],
                 map_symbols = [], map_lights = []\<rparr>,
      sim_nodes = [(IntId 7, (0, 0))], sim_edges = [(IntId 7, [])], sim_lights = [],
      sim_symbols = [], sim_cars = [], sim_next_car_id = 1, sim_occupied = Map.empty\<rparr>" 3]
  by simp

section \<open>The binary heap\<close>

declare siftdown.simps [simp del] siftup_loop.simps [simp del]

lemma parent_less: "0 < n \<Longrightarrow> (n - 1) div 2 < (n::nat)"
  by arith

lemma lt_item_True: "lt_item a b = Inr True \<Longrightarrow> fst a \<le> fst b"
  by (auto simp: lt_item_def split: if_splits)

lemma lt_item_False: "lt_item a b = Inr False \<Longrightarrow> fst b \<le> fst a"
  by (auto simp: lt_item_def split: if_splits)

lemma siftdown_stop: "\<not> sp < pos \<Longrightarrow> siftdown h sp pos x = Inr (h[pos := x])"
  by (simp add: siftdown.simps)

lemma siftdown_err:
  "sp < pos \<Longrightarrow> lt_item x (h ! ((pos - 1) div 2)) = Inl e \<Longrightarrow> siftdown h sp pos x = Inl e"
  by (simp add: siftdown.simps [of h] Let_def)

lemma siftdown_up:
  "sp < pos \<Longrightarrow> lt_item x (h ! ((pos - 1) div 2)) = Inr True \<Longrightarrow>
   siftdown h sp pos x = siftdown (h[pos := h ! ((pos - 1) div 2)]) sp ((pos - 1) div 2) x"
  by (simp add: siftdown.simps [of h] Let_def)

lemma siftdown_stay:
  "sp < pos \<Longrightarrow> lt_item x (h ! ((pos - 1) div 2)) = Inr False \<Longrightarrow>
   siftdown h sp pos x = Inr (h[pos := x])"
  by (simp add: siftdown.simps [of h] Let_def)

lemma siftdown_cases:
  assumes "siftdown h sp pos x = Inr h'"
  obtains (root) "\<not> sp < pos" "h' = h[pos := x]"
    | (stay) "sp < pos" "lt_item x (h ! ((pos - 1) div 2)) = Inr False" "h' = h[pos := x]"
    | (up) "sp < pos" "lt_item x (h ! ((pos - 1) div 2)) = Inr True"
        "siftdown (h[pos := h ! ((pos - 1) div 2)]) sp ((pos - 1) div 2) x = Inr h'"
proof (cases "sp < pos")
  case False
  with assms root show ?thesis by (simp add: siftdown_stop)
next
  case True
  show ?thesis
  proof (cases "lt_item x (h ! ((pos - 1) div 2))")
    case (Inl e)
    with True assms show ?thesis by (simp add: siftdown_err)
  next
    case (Inr b)
    show ?thesis
    proof (cases b)
      case True
      with \<open>sp < pos\<close> Inr assms up show ?thesis by (simp add: siftdown_up)
    next
      case False
      with \<open>sp < pos\<close> Inr assms stay show ?thesis by (simp add: siftdown_stay)
    qed
  qed
qed

lemma siftdown_length:
  "siftdown h sp pos x = Inr h' \<Longrightarrow> length h' = length h"
proof (induction pos arbitrary: h rule: less_induct)
  case (less pos)
  from less.prems show ?case
  proof (cases rule: siftdown_cases)
    case root
    then show ?thesis by simp
  next
    case stay
    then show ?thesis by simp
  next
    case up
    have "(pos - 1) div 2 < pos" using up(1) by auto
    from less.IH [OF this up(3)] show ?thesis by simp
  qed
qed

lemma mset_move_up:
  assumes "pp \<noteq> pos" "pos < length h" "pp < length h"
  shows "mset (h[pos := h ! pp, pp := x]) = mset (h[pos := x])"
proof -
  let ?g = "h[pos := x]"
  have "h[pos := h ! pp, pp := x] = ?g[pp := ?g ! pos, pos := ?g ! pp]"
    using assms by (auto simp: list_eq_iff_nth_eq nth_list_update)
  moreover have "mset (?g[pp := ?g ! pos, pos := ?g ! pp]) = mset ?g"
    using assms by (intro mset_swap) auto
  ultimately show ?thesis by simp
qed

lemma siftdown_mset:
  "siftdown h sp pos x = Inr h' \<Longrightarrow> pos < length h \<Longrightarrow> mset h' = mset (h[pos := x])"
proof (induction pos arbitrary: h rule: less_induct)
  case (less pos)
  from less.prems(1) show ?case
  proof (cases rule: siftdown_cases)
    case root
    then show ?thesis by simp
  next
    case stay
    then show ?thesis by simp
  next
    case up
    have pp: "(pos - 1) div 2 < pos" using up(1) by auto
    from less.IH [OF pp up(3)] pp less.prems(2)
    have "mset h' = mset (h[pos := h ! ((pos - 1) div 2), (pos - 1) div 2 := x])" by simp
    moreover have "(pos - 1) div 2 \<noteq> pos" "(pos - 1) div 2 < length h"
      using pp less.prems(2) by auto
    ultimately show ?thesis using mset_move_up [OF _ less.prems(2)] by simp
  qed
qed

lemma heap_ok_fill:
  assumes "pos < length h" "hole_ok h pos"
    and ch: "\<forall>k. 0 < k \<and> k < length h \<and> (k - 1) div 2 = pos \<longrightarrow> fst x \<le> fst (h ! k)"
    and par: "0 < pos \<Longrightarrow> fst (h ! ((pos - 1) div 2)) \<le> fst x"
  shows "heap_ok (h[pos := x])"
  unfolding heap_ok_def
proof (intro allI impI)
  fix i assume i: "0 < i \<and> i < length (h[pos := x])"
  show "fst (h[pos := x] ! ((i - 1) div 2)) \<le> fst (h[pos := x] ! i)"
  proof (cases "i = pos")
    case True
    have "(i - 1) div 2 \<noteq> pos" using i True by auto
    then show ?thesis using i par assms(1) True by auto
  next
    case False
    show ?thesis
    proof (cases "(i - 1) div 2 = pos")
      case True
      then show ?thesis using i False ch assms(1) by auto
    next
      case f2: False
      with False i assms(2) show ?thesis by (auto simp: hole_ok_def)
    qed
  qed
qed

lemma siftdown_heap:
  "siftdown h 0 pos x = Inr h' \<Longrightarrow> pos < length h \<Longrightarrow> hole_ok h pos \<Longrightarrow>
   (\<forall>k. 0 < k \<and> k < length h \<and> (k - 1) div 2 = pos \<longrightarrow> fst x \<le> fst (h ! k)) \<Longrightarrow>
   heap_ok h'"
proof (induction pos arbitrary: h rule: less_induct)
  case (less pos)
  let ?pp = "(pos - 1) div 2"
  from less.prems(1) show ?case
  proof (cases rule: siftdown_cases)
    case root
    with heap_ok_fill [OF less.prems(2,3,4)] show ?thesis by simp
  next
    case stay
    from stay(2) have "fst (h ! ?pp) \<le> fst x" by (rule lt_item_False)
    with heap_ok_fill [OF less.prems(2,3,4)] stay(3) show ?thesis by simp
  next
    case up
    have pp: "?pp < pos" using up(1) by auto
    let ?h1 = "h[pos := h ! ?pp]"
    have x_le: "fst x \<le> fst (h ! ?pp)" using up(2) by (rule lt_item_True)
    have sib: "fst (h ! ?pp) \<le> fst (h ! k)"
      if "0 < k" "k < length h" "(k - 1) div 2 = ?pp" "k \<noteq> pos" for k
    proof -
      have "(k - 1) div 2 \<noteq> pos" using that(3) pp by simp
      with that less.prems(3) show ?thesis unfolding hole_ok_def by metis
    qed
    have hole: "hole_ok ?h1 ?pp"
      unfolding hole_ok_def
    proof (intro conjI allI impI)
      fix i assume i: "0 < i \<and> i < length ?h1 \<and> i \<noteq> ?pp \<and> (i - 1) div 2 \<noteq> ?pp"
      show "fst (?h1 ! ((i - 1) div 2)) \<le> fst (?h1 ! i)"
      proof (cases "i = pos")
        case True
        with i show ?thesis by simp
      next
        case False
        show ?thesis
        proof (cases "(i - 1) div 2 = pos")
          case True
          then have "fst (h ! ?pp) \<le> fst (h ! i)"
            using less.prems(3) i up(1) by (auto simp: hole_ok_def)
          with True False i less.prems(2) show ?thesis by simp
        next
          case f2: False
          with False i less.prems(3) show ?thesis by (auto simp: hole_ok_def)
        qed
      qed
    next
      fix k assume k: "0 < ?pp \<and> 0 < k \<and> k < length ?h1 \<and> (k - 1) div 2 = ?pp"
      let ?gp = "(?pp - 1) div 2"
      have gpl: "?gp < ?pp" using k parent_less by blast
      have "(?pp - 1) div 2 \<noteq> pos" using gpl pp by simp
      moreover have "?pp \<noteq> pos" using pp by simp
      moreover have "?pp < length h" using pp less.prems(2) by simp
      ultimately have gp: "fst (h ! ?gp) \<le> fst (h ! ?pp)"
        using less.prems(3) k unfolding hole_ok_def by metis
      have gne: "?gp \<noteq> pos" using gpl pp by simp
      show "fst (?h1 ! ?gp) \<le> fst (?h1 ! k)"
      proof (cases "k = pos")
        case True
        with gp gne less.prems(2) show ?thesis by simp
      next
        case False
        then have "fst (h ! ?pp) \<le> fst (h ! k)" using sib k by simp
        with gp False gne show ?thesis by simp
      qed
    qed
    have ch: "\<forall>k. 0 < k \<and> k < length ?h1 \<and> (k - 1) div 2 = ?pp \<longrightarrow> fst x \<le> fst (?h1 ! k)"
    proof (intro allI impI)
      fix k assume k: "0 < k \<and> k < length ?h1 \<and> (k - 1) div 2 = ?pp"
      show "fst x \<le> fst (?h1 ! k)"
      proof (cases "k = pos")
        case True
        with x_le less.prems(2) show ?thesis by simp
      next
        case False
        then have "fst (h ! ?pp) \<le> fst (h ! k)" using sib k by simp
        with x_le False show ?thesis by simp
      qed
    qed
    have "?pp < length ?h1" using pp less.prems(2) by simp
    from less.IH [OF pp up(3) this hole ch] show ?thesis .
  qed
qed


lemma heap_ok_root_min: "heap_ok h \<Longrightarrow> i < length h \<Longrightarrow> fst (h ! 0) \<le> fst (h ! i)"
proof (induction i rule: less_induct)
  case (less i)
  show ?case
  proof (cases "i = 0")
    case True
    then show ?thesis by simp
  next
    case False
    then have p: "(i - 1) div 2 < i" by (simp add: parent_less)
    with less.prems have "fst (h ! 0) \<le> fst (h ! ((i - 1) div 2))"
      by (intro less.IH) auto
    moreover have "fst (h ! ((i - 1) div 2)) \<le> fst (h ! i)"
      using less.prems False by (auto simp: heap_ok_def)
    ultimately show ?thesis by simp
  qed
qed

lemma child_cases:
  "0 < k \<Longrightarrow> (k - 1) div 2 = pos \<Longrightarrow> k = 2 * pos + 1 \<or> k = 2 * pos + (2::nat)"
  by arith

lemma siftup_loop_leaf: "\<not> 2 * pos + 1 < length h \<Longrightarrow> siftup_loop h pos = Inr (h, pos)"
  by (subst siftup_loop.simps) simp

lemma siftup_loop_one:
  "2 * pos + 1 < length h \<Longrightarrow> \<not> 2 * pos + 2 < length h \<Longrightarrow>
   siftup_loop h pos = siftup_loop (h[pos := h ! (2 * pos + 1)]) (2 * pos + 1)"
  by (subst siftup_loop.simps) (simp add: Let_def)

lemma siftup_loop_err:
  "2 * pos + 2 < length h \<Longrightarrow> lt_item (h ! (2 * pos + 1)) (h ! (2 * pos + 2)) = Inl e \<Longrightarrow>
   siftup_loop h pos = Inl e"
  by (subst siftup_loop.simps) (simp add: Let_def)

lemma siftup_loop_left:
  "2 * pos + 2 < length h \<Longrightarrow> lt_item (h ! (2 * pos + 1)) (h ! (2 * pos + 2)) = Inr True \<Longrightarrow>
   siftup_loop h pos = siftup_loop (h[pos := h ! (2 * pos + 1)]) (2 * pos + 1)"
  by (subst siftup_loop.simps) (simp add: Let_def)

lemma siftup_loop_right:
  "2 * pos + 2 < length h \<Longrightarrow> lt_item (h ! (2 * pos + 1)) (h ! (2 * pos + 2)) = Inr False \<Longrightarrow>
   siftup_loop h pos = siftup_loop (h[pos := h ! (2 * pos + 2)]) (2 * pos + 2)"
  by (subst siftup_loop.simps) (simp add: Let_def)

lemma siftup_loop_cases:
  assumes "siftup_loop h pos = Inr (h', pos')"
  obtains (leaf) "\<not> 2 * pos + 1 < length h" "h' = h" "pos' = pos"
    | (down) c where "2 * pos + 1 < length h" "c = 2 * pos + 1 \<or> c = 2 * pos + 2" "c < length h"
        "\<forall>k. 0 < k \<and> k < length h \<and> (k - 1) div 2 = pos \<longrightarrow> fst (h ! c) \<le> fst (h ! k)"
        "siftup_loop (h[pos := h ! c]) c = Inr (h', pos')"
proof (cases "2 * pos + 1 < length h")
  case False
  from assms have "h' = h" "pos' = pos" unfolding siftup_loop_leaf [OF False] by simp_all
  with False leaf show ?thesis by blast
next
  case True
  show ?thesis
  proof (cases "2 * pos + 2 < length h")
    case False
    from assms have s: "siftup_loop (h[pos := h ! (2 * pos + 1)]) (2 * pos + 1) = Inr (h', pos')"
      unfolding siftup_loop_one [OF True False] .
    have "fst (h ! (2 * pos + 1)) \<le> fst (h ! k)"
      if "0 < k \<and> k < length h \<and> (k - 1) div 2 = pos" for k
    proof -
      from that child_cases [of k pos] have "k = 2 * pos + 1 \<or> k = 2 * pos + 2" by blast
      with that False have "k = 2 * pos + 1" by auto
      then show ?thesis by simp
    qed
    then have "\<forall>k. 0 < k \<and> k < length h \<and> (k - 1) div 2 = pos
                      \<longrightarrow> fst (h ! (2 * pos + 1)) \<le> fst (h ! k)" by blast
    from down [OF True _ True this s] show ?thesis by blast
  next
    case r: True
    show ?thesis
    proof (cases "lt_item (h ! (2 * pos + 1)) (h ! (2 * pos + 2))")
      case (Inl e)
      from assms show ?thesis unfolding siftup_loop_err [OF r Inl] by simp
    next
      case (Inr b)
      show ?thesis
      proof (cases b)
        case True
        with Inr have lt: "lt_item (h ! (2 * pos + 1)) (h ! (2 * pos + 2)) = Inr True" by simp
        then have le: "fst (h ! (2 * pos + 1)) \<le> fst (h ! (2 * pos + 2))"
          by (rule lt_item_True)
        from assms have s: "siftup_loop (h[pos := h ! (2 * pos + 1)]) (2 * pos + 1) = Inr (h', pos')"
          unfolding siftup_loop_left [OF r lt] .
        have "fst (h ! (2 * pos + 1)) \<le> fst (h ! k)"
          if "0 < k \<and> k < length h \<and> (k - 1) div 2 = pos" for k
        proof -
          from that child_cases [of k pos] have "k = 2 * pos + 1 \<or> k = 2 * pos + 2" by blast
          with le show ?thesis by auto
        qed
        then have "\<forall>k. 0 < k \<and> k < length h \<and> (k - 1) div 2 = pos
                      \<longrightarrow> fst (h ! (2 * pos + 1)) \<le> fst (h ! k)" by blast
        from down [OF \<open>2 * pos + 1 < length h\<close> _ \<open>2 * pos + 1 < length h\<close> this s]
        show ?thesis by blast
      next
        case False
        with Inr have lt: "lt_item (h ! (2 * pos + 1)) (h ! (2 * pos + 2)) = Inr False" by simp
        then have le: "fst (h ! (2 * pos + 2)) \<le> fst (h ! (2 * pos + 1))"
          by (rule lt_item_False)
        from assms have s: "siftup_loop (h[pos := h ! (2 * pos + 2)]) (2 * pos + 2) = Inr (h', pos')"
          unfolding siftup_loop_right [OF r lt] .
        have "fst (h ! (2 * pos + 2)) \<le> fst (h ! k)"
          if "0 < k \<and> k < length h \<and> (k - 1) div 2 = pos" for k
        proof -
          from that child_cases [of k pos] have "k = 2 * pos + 1 \<or> k = 2 * pos + 2" by blast
          with le show ?thesis by auto
        qed
        then have "\<forall>k. 0 < k \<and> k < length h \<and> (k - 1) div 2 = pos
                      \<longrightarrow> fst (h ! (2 * pos + 2)) \<le> fst (h ! k)" by blast
        from down [OF \<open>2 * pos + 1 < length h\<close> _ r this s]
        show ?thesis by blast
      qed
    qed
  qed
qed

lemma siftup_loop_inv:
  "siftup_loop h pos = Inr (h', pos') \<Longrightarrow> pos < length h \<Longrightarrow> hole_ok h pos \<Longrightarrow>
   hole_ok h' pos' \<and> length h' = length h \<and> pos' < length h \<and> \<not> 2 * pos' + 1 < length h' \<and>
   (\<forall>x. mset (h'[pos' := x]) = mset (h[pos := x]))"
proof (induction "length h - pos" arbitrary: h pos rule: less_induct)
  case less
  from less.prems(1) show ?case
  proof (cases rule: siftup_loop_cases)
    case leaf
    with less.prems show ?thesis by simp
  next
    case (down c)
    let ?h1 = "h[pos := h ! c]"
    have cpos: "pos < c" "(c - 1) div 2 = pos" "0 < c" using down(2) by auto
    have hole: "hole_ok ?h1 c"
      unfolding hole_ok_def
    proof (intro conjI allI impI)
      fix i assume i: "0 < i \<and> i < length ?h1 \<and> i \<noteq> c \<and> (i - 1) div 2 \<noteq> c"
      show "fst (?h1 ! ((i - 1) div 2)) \<le> fst (?h1 ! i)"
      proof (cases "i = pos")
        case True
        then have "(i - 1) div 2 \<noteq> pos" using i parent_less [of i] by simp
        moreover have "fst (h ! ((pos - 1) div 2)) \<le> fst (h ! c)"
          using less.prems(3) cpos down(3) i True unfolding hole_ok_def by metis
        ultimately show ?thesis using True less.prems(2) by simp
      next
        case False
        show ?thesis
        proof (cases "(i - 1) div 2 = pos")
          case True
          then have "fst (h ! c) \<le> fst (h ! i)" using down(4) i by simp
          with True False less.prems(2) show ?thesis by simp
        next
          case f2: False
          with False i less.prems(3) show ?thesis by (auto simp: hole_ok_def)
        qed
      qed
    next
      fix k assume k: "0 < c \<and> 0 < k \<and> k < length ?h1 \<and> (k - 1) div 2 = c"
      have "c < k" using k parent_less [of k] by simp
      then have kne: "k \<noteq> pos" using cpos by simp
      moreover have "(k - 1) div 2 \<noteq> pos" using k cpos by simp
      ultimately have "fst (h ! c) \<le> fst (h ! k)"
        using less.prems(3) k unfolding hole_ok_def by auto
      with kne cpos less.prems(2) show "fst (?h1 ! ((c - 1) div 2)) \<le> fst (?h1 ! k)" by simp
    qed
    have m: "length ?h1 - c < length h - pos" using cpos down(3) by simp
    have cl: "c < length ?h1" using down(3) by simp
    from less.hyps [OF m down(5) cl hole]
    have ih: "hole_ok h' pos'" "length h' = length h" "pos' < length h"
      "\<not> 2 * pos' + 1 < length h'" "\<And>x. mset (h'[pos' := x]) = mset (?h1[c := x])"
      by auto
    have "mset (?h1[c := x]) = mset (h[pos := x])" for x
      using mset_move_up [of c pos h x] cpos less.prems(2) down(3) by simp
    with ih show ?thesis by simp
  qed
qed

lemma heappush_ok:
  assumes "heappush h x = Inr h'" "heap_ok h"
  shows "heap_ok h' \<and> mset h' = add_mset x (mset h)"
proof -
  from assms(1) have sd: "siftdown (h @ [x]) 0 (length h) x = Inr h'"
    by (simp add: heappush_def)
  have hole: "hole_ok (h @ [x]) (length h)"
    unfolding hole_ok_def
  proof (intro conjI allI impI)
    fix i assume i: "0 < i \<and> i < length (h @ [x]) \<and> i \<noteq> length h \<and> (i - 1) div 2 \<noteq> length h"
    then have il: "i < length h" by simp
    then have "(i - 1) div 2 < length h" using parent_less [of i] i by simp
    with il assms(2) i show "fst ((h @ [x]) ! ((i - 1) div 2)) \<le> fst ((h @ [x]) ! i)"
      by (simp add: heap_ok_def nth_append)
  next
    fix k assume k: "0 < length h \<and> 0 < k \<and> k < length (h @ [x]) \<and> (k - 1) div 2 = length h"
    then have "k = 2 * length h + 1 \<or> k = 2 * length h + 2" using child_cases by blast
    with k have False by auto
    then show "fst ((h @ [x]) ! ((length h - 1) div 2)) \<le> fst ((h @ [x]) ! k)" ..
  qed
  have ch: "\<forall>k. 0 < k \<and> k < length (h @ [x]) \<and> (k - 1) div 2 = length h
               \<longrightarrow> fst x \<le> fst ((h @ [x]) ! k)"
  proof (intro allI impI)
    fix k assume k: "0 < k \<and> k < length (h @ [x]) \<and> (k - 1) div 2 = length h"
    then have "k = 2 * length h + 1 \<or> k = 2 * length h + 2" using child_cases by blast
    with k have False by auto
    then show "fst x \<le> fst ((h @ [x]) ! k)" ..
  qed
  from siftdown_heap [OF sd _ hole ch] have "heap_ok h'" by simp
  moreover from siftdown_mset [OF sd] have "mset h' = add_mset x (mset h)" by simp
  ultimately show ?thesis by simp
qed

lemma heappop_ok:
  assumes "heappop h = Inr (x, h')" "heap_ok h" "h \<noteq> []"
  shows "heap_ok h' \<and> mset h = add_mset x (mset h') \<and> (\<forall>y \<in> set h. fst x \<le> fst y)"
proof (cases "butlast h = []")
  case True
  with assms(3) have h: "h = [last h]"
    by (metis append_butlast_last_id append_Nil)
  with True assms(1) have xh: "x = last h" "h' = []" by (auto simp: heappop_def)
  from h obtain a where a: "h = [a]" by blast
  with xh have "x = a" by simp
  with a xh(2) show ?thesis by (simp add: heap_ok_def)
next
  case False
  let ?h1 = "butlast h"
  let ?g = "?h1[0 := last h]"
  from False assms(1) have x: "x = ?h1 ! 0" and su: "siftup ?g 0 = Inr h'"
    by (auto simp: heappop_def Let_def split: sum.splits)
  from su obtain g' p' where sl: "siftup_loop ?g 0 = Inr (g', p')"
    and sd: "siftdown g' 0 p' (?g ! 0) = Inr h'"
    by (auto simp: siftup_def Let_def split: sum.splits)
  have len: "0 < length ?h1" using False by (metis length_greater_0_conv)
  have hole0: "hole_ok ?g 0"
    unfolding hole_ok_def
  proof (intro conjI allI impI)
    fix i assume i: "0 < i \<and> i < length ?g \<and> i \<noteq> 0 \<and> (i - 1) div 2 \<noteq> 0"
    then have il: "i < length h - 1" by simp
    have pl: "(i - 1) div 2 < i" using parent_less [of i] i by simp
    have "0 < i \<and> i < length h" using i il by arith
    with assms(2) have "fst (h ! ((i - 1) div 2)) \<le> fst (h ! i)"
      unfolding heap_ok_def by blast
    with i il pl show "fst (?g ! ((i - 1) div 2)) \<le> fst (?g ! i)"
      by (simp add: nth_butlast)
  next
    fix k assume "(0::nat) < 0 \<and> 0 < k \<and> k < length ?g \<and> (k - 1) div 2 = 0"
    then show "fst (?g ! ((0 - 1) div 2)) \<le> fst (?g ! k)" by simp
  qed
  from siftup_loop_inv [OF sl _ hole0] len
  have inv: "hole_ok g' p'" "length g' = length ?g" "p' < length ?g"
    "\<not> 2 * p' + 1 < length g'" "\<And>y. mset (g'[p' := y]) = mset (?g[0 := y])"
    by auto
  have ch: "\<forall>k. 0 < k \<and> k < length g' \<and> (k - 1) div 2 = p' \<longrightarrow> fst (?g ! 0) \<le> fst (g' ! k)"
  proof (intro allI impI)
    fix k assume k: "0 < k \<and> k < length g' \<and> (k - 1) div 2 = p'"
    then have "k = 2 * p' + 1 \<or> k = 2 * p' + 2" using child_cases by blast
    with k inv(4) have False by auto
    then show "fst (?g ! 0) \<le> fst (g' ! k)" ..
  qed
  from siftdown_heap [OF sd _ inv(1) ch] inv(2,3) have hk: "heap_ok h'" by simp
  from siftdown_mset [OF sd] inv(2,3) have "mset h' = mset (g'[p' := ?g ! 0])" by simp
  also have "\<dots> = mset ?g" using inv(5) [of "?g ! 0"] by simp
  finally have m1: "mset h' = mset ?g" .
  let ?R = "mset ?h1 - {#?h1 ! 0#}"
  have g: "mset ?g = add_mset (last h) ?R"
    using len by (simp add: mset_update)
  have "h = ?h1 @ [last h]" using assms(3) by simp
  then have "mset h = mset (?h1 @ [last h])" by simp
  then have mh: "mset h = add_mset (last h) (mset ?h1)" by simp
  have "?h1 ! 0 \<in># mset ?h1" using len by simp
  then have "add_mset (?h1 ! 0) ?R = mset ?h1" by (rule insert_DiffM)
  with mh have "mset h = add_mset (last h) (add_mset x ?R)" using x by simp
  also have "\<dots> = add_mset x (add_mset (last h) ?R)" by (rule add_mset_commute)
  finally have m: "mset h = add_mset x (mset h')" using m1 g by simp
  have "x = h ! 0" using x len by (simp add: nth_butlast)
  then have "\<forall>y \<in> set h. fst x \<le> fst y"
    using heap_ok_root_min [OF assms(2)] by (metis in_set_conv_nth)
  with hk m show ?thesis by simp
qed

section \<open>Evaluating on concrete maps\<close>

declare str_nat.simps [simp del]

lemma str_int_1: "str_int 1 = ''1''"
  by (simp add: str_int_def str_nat.simps [of "Suc 0"] digit_char_def)

lemma dist_pt_same_y: "dist_pt (a, y) (b, y) = \<bar>a - b\<bar>"
  by (simp add: dist_pt_def)

lemma dist_pt_same_x: "dist_pt (x, a) (x, b) = \<bar>a - b\<bar>"
  by (simp add: dist_pt_def)

lemma vlength_x: "vlength (a, 0) = \<bar>a\<bar>"
  by (simp add: vlength_def)

lemma vlength_y: "vlength (0, b) = \<bar>b\<bar>"
  by (simp add: vlength_def)

section \<open>Hub attachment\<close>

text \<open>
  C2. The hub scan of step 4 runs over every node, earlier hubs included. On a map with
  one road far away and two hubs at the same point, the second hub finds the first at
  distance 0 and the two hubs are joined by an edge; neither stays isolated.
\<close>

theorem hub_snaps_to_hub:
  "build_graph
     \<lparr>roads = [\<lparr>road_id = 1, road_x = 1000, road_y = - 10, road_w = 100, road_h = 20,
                 road_type = None\<rparr>],
      hubs = [\<lparr>hub_id = 1, hub_x = 0, hub_y = 0\<rparr>, \<lparr>hub_id = 2, hub_x = 0, hub_y = 0\<rparr>],
      map_symbols = [], map_lights = []\<rparr> 80 =
   ([(StrId ''r1_L'', (1000, 0)), (StrId ''r1_M'', (1050, 0)), (StrId ''r1_R'', (1100, 0)),
     (IntId 1, (0, 0)), (IntId 2, (0, 0))],
    [(StrId ''r1_L'', [(StrId ''r1_M'', 50)]),
     (StrId ''r1_M'', [(StrId ''r1_L'', 50), (StrId ''r1_R'', 50)]),
     (StrId ''r1_R'', [(StrId ''r1_M'', 50)]),
     (IntId 1, [(IntId 2, 0)]),
     (IntId 2, [(IntId 1, 0)])])"
  by (simp add: build_graph_def add_road_def road_node_def str_int_1 Let_def
      dist_pt_same_y dist_pt_same_x edges_append_def edges_get_def rect_overlap_def stitch_pair_def
      add_hub_def nearest_step_def)

section \<open>The reservation registry\<close>

text \<open>One round of the light loop, for a light that another car holds: on a green phase
  and nearer than 40, the car is stopped and takes the reservation over.\<close>

lemma light_step_takes_over:
  assumes "is_green_for lt dir_vec = Inr True"
    and "vlength (vsub (light_x lt, light_y lt) p) < 40"
    and "vdot (vsub (light_x lt, light_y lt) p) dir_vec > 0"
    and "occ i = Some c" "c \<noteq> cid"
  shows "light_step cid p dir_vec (i, lt) (max_speed, occ, tgt) = Inr (0, occ(i \<mapsto> cid), Some i)"
  using assms by (simp add: light_step_def Let_def)

text \<open>
  C1. Light 0 is reserved by car 1. Car 2 is 30 ahead of the light, on a green phase
  for its direction. Its update clamps its speed to 0 (it does not move), and writes
  itself into the registry in place of car 1.
\<close>

theorem acquire_takes_over:
  "\<exists>car occ.
     Car_update
       \<lparr>sim_map = \<lparr>roads = [], hubs = [], map_symbols = [], map_lights = []\<rparr>,
        sim_nodes = [(StrId ''a'', (0, 0)), (StrId ''b'', (100, 0))],
        sim_edges = [],
        sim_lights = [\<lparr>light_x = 30, light_y = 0, light_green = 6, light_red = 6,
                        light_offset = 0, light_t = 0\<rparr>],
        sim_symbols = [],
        sim_cars =
          [\<lparr>car_path = [StrId ''a'', StrId ''b''], car_id = 1, car_edge_idx = 0,
            car_progress = 0.6, car_speed = 80, car_radius = 6, car_finished = False,
            car_intersection_target = Some 0, car_pos = (60, 0)\<rparr>,
           \<lparr>car_path = [StrId ''a'', StrId ''b''], car_id = 2, car_edge_idx = 0,
            car_progress = 0, car_speed = 80, car_radius = 6, car_finished = False,
            car_intersection_target = None, car_pos = (0, 0)\<rparr>],
        sim_next_car_id = 3,
        sim_occupied = [0 \<mapsto> 1]\<rparr>
       \<lparr>car_path = [StrId ''a'', StrId ''b''], car_id = 2, car_edge_idx = 0,
        car_progress = 0, car_speed = 80, car_radius = 6, car_finished = False,
        car_intersection_target = None, car_pos = (0, 0)\<rparr>
       (1 / 60) = Inr (car, occ) \<and>
     occ 0 = Some 2 \<and> car_intersection_target car = Some 0 \<and>
     car_pos car = (0, 0) \<and> car_progress car = 0"
  by (simp add: Car_update_def nodes_at_def vsub_def vlength_x normalize_def Let_def
      spacing_speed_def leader_step_def light_step_def is_green_for_def py_mod_def vdot_def
      vscale_def release_step_def move_step_def vadd_def)

section \<open>No-entry symbols\<close>

lemma symbols_loop_no_entry:
  "s \<in> set ss \<Longrightarrow> sym_type s = Some ''no_entry'' \<Longrightarrow>
   vdot (vsub (sym_x s, sym_y s) p) d > 0 \<Longrightarrow> vlength (vsub (sym_x s, sym_y s) p) < 50 \<Longrightarrow>
   symbols_loop p d ss ms = None"
proof (induction ss arbitrary: ms)
  case Nil
  then show ?case by simp
next
  case (Cons x xs)
  show ?case
  proof (cases "x = s")
    case True
    with Cons.prems show ?thesis by (simp add: Let_def)
  next
    case False
    with Cons.prems have "s \<in> set xs" by simp
    from Cons.IH [OF this Cons.prems(2,3,4)] show ?thesis by (simp add: Let_def)
  qed
qed

lemma light_step_ok:
  "light_green (snd il) + light_red (snd il) \<noteq> 0 \<Longrightarrow> \<exists>st'. light_step cid p d il st = Inr st'"
  by (cases st) (auto simp: light_step_def Let_def is_green_for_def py_mod_def)

lemma lights_loop_ok:
  "\<forall>il \<in> set ils. light_green (snd il) + light_red (snd il) \<noteq> 0 \<Longrightarrow>
   \<exists>st'. lights_loop cid p d ils st = Inr st'"
proof (induction ils arbitrary: st)
  case Nil
  show ?case by (cases st) simp
next
  case (Cons il ils)
  then obtain st1 where "light_step cid p d il st = Inr st1"
    using light_step_ok [of il cid p d st] by auto
  with Cons.IH [of st1] Cons.prems show ?case by simp
qed

text \<open>
  C8. A car that is not finished, has an edge left (whose two ends are nodes at different
  points) and meets only lights with a cycle other than zero: when some \<open>no_entry\<close>
  symbol is ahead of it (positive dot product with the direction of travel) at a
  distance below 50, the update returns with the car's position, progress, edge index
  and finished flag as they were.
\<close>

theorem no_entry_aborts_motion:
  assumes "\<not> car_finished self"
    and "car_edge_idx self + 1 < length (car_path self)"
    and "map_of (sim_nodes sim) (car_path self ! car_edge_idx self) = Some a"
    and "map_of (sim_nodes sim) (car_path self ! (car_edge_idx self + 1)) = Some b"
    and "normalize (vsub b a) = Inr dir_vec"
    and "\<forall>lt \<in> set (sim_lights sim). light_green lt + light_red lt \<noteq> 0"
    and "s \<in> set (sim_symbols sim)"
    and "sym_type s = Some ''no_entry''"
    and "vdot (vsub (sym_x s, sym_y s) (car_pos self)) dir_vec > 0"
    and "vlength (vsub (sym_x s, sym_y s) (car_pos self)) < 50"
  shows "\<exists>self' occ. Car_update sim self dt = Inr (self', occ) \<and>
           car_pos self' = car_pos self \<and> car_progress self' = car_progress self \<and>
           car_edge_idx self' = car_edge_idx self \<and> car_finished self' = car_finished self"
proof -
  have "\<forall>il \<in> set (zip [0 ..< length (sim_lights sim)] (sim_lights sim)).
          light_green (snd il) + light_red (snd il) \<noteq> 0"
    using assms(6) by (auto dest: set_zip_rightD)
  from lights_loop_ok [OF this]
  obtain st where st: "lights_loop (car_id self) (car_pos self) dir_vec
      (zip [0 ..< length (sim_lights sim)] (sim_lights sim))
      (spacing_speed self dir_vec (sim_cars sim), sim_occupied sim, car_intersection_target self)
      = Inr st" by blast
  have sy: "symbols_loop (car_pos self) dir_vec (sim_symbols sim) (fst st) = None"
    using symbols_loop_no_entry [OF assms(7,8,9,10)] .
  show ?thesis
    using assms(1-5) st sy by (simp add: Car_update_def nodes_at_def Let_def)
qed

theorem no_entry_aborts_motion_witness:
  "\<exists>self' occ.
     Car_update
       \<lparr>sim_map = \<lparr>roads = [], hubs = [], map_symbols = [], map_lights = []\<rparr>,
        sim_nodes = [(StrId ''a'', (0, 0)), (StrId ''b'', (100, 0))],
        sim_edges = [], sim_lights = [],
        sim_symbols = [\<lparr>sym_x = 20, sym_y = 0, sym_type = Some ''no_entry''\<rparr>],
        sim_cars = [], sim_next_car_id = 2, sim_occupied = Map.empty\<rparr>
       \<lparr>car_path = [StrId ''a'', StrId ''b''], car_id = 1, car_edge_idx = 0,
        car_progress = 0, car_speed = 80, car_radius = 6, car_finished = False,
        car_intersection_target = None, car_pos = (0, 0)\<rparr>
       (1 / 60) = Inr (self', occ) \<and>
     car_pos self' = (0, 0) \<and> car_progress self' = 0 \<and> car_edge_idx self' = 0 \<and>
     \<not> car_finished self'"
  using no_entry_aborts_motion
    [of "\<lparr>car_path = [StrId ''a'', StrId ''b''], car_id = 1, car_edge_idx = 0,
        car_progress = 0, car_speed = 80, car_radius = 6, car_finished = False,
        car_intersection_target = None, car_pos = (0, 0)\<rparr>"
       "\<lparr>sim_map = \<lparr>roads = [], hubs = [], map_symbols = [], map_lights = []\<rparr>,
        sim_nodes = [(StrId ''a'', (0, 0)), (StrId ''b'', (100, 0))],
        sim_edges = [], sim_lights = [],
        sim_symbols = [\<lparr>sym_x = 20, sym_y = 0, sym_type = Some ''no_entry''\<rparr>],
        sim_cars = [], sim_next_car_id = 2, sim_occupied = Map.empty\<rparr>"
       "(0, 0)" "(100, 0)" "(1, 0)"
       "\<lparr>sym_x = 20, sym_y = 0, sym_type = Some ''no_entry''\<rparr>" "1 / 60"]
  by (simp add: normalize_def vsub_def vlength_x vdot_def)

section \<open>Routing to an isolated hub\<close>

lemma sqrt_less_num: "0 \<le> y \<Longrightarrow> sqrt x < y \<longleftrightarrow> x < y\<^sup>2"
  by (metis real_sqrt_less_iff real_sqrt_abs abs_of_nonneg)

lemma num_less_sqrt: "0 \<le> y \<Longrightarrow> y < sqrt x \<longleftrightarrow> y\<^sup>2 < x"
  by (metis real_sqrt_less_iff real_sqrt_abs abs_of_nonneg)

lemma sqrt_le_num: "0 \<le> y \<Longrightarrow> sqrt x \<le> y \<longleftrightarrow> x \<le> y\<^sup>2"
  by (metis real_sqrt_le_iff real_sqrt_abs abs_of_nonneg)

lemma sqrt_2500: "sqrt 2500 = 50"
  by (rule real_sqrt_unique) simp_all

lemma sqrt_10000: "sqrt 10000 = 100"
  by (rule real_sqrt_unique) simp_all

lemma sqrt_1000000: "sqrt 1000000 = 1000"
  by (rule real_sqrt_unique) simp_all

lemma tie_graph:
  "build_graph
     \<lparr>roads = [\<lparr>road_id = 1, road_x = 0, road_y = 0, road_w = 100, road_h = 20,
                      road_type = None\<rparr>],
           hubs = [\<lparr>hub_id = 2, hub_x = 50, hub_y = 1010\<rparr>,
                   \<lparr>hub_id = 1, hub_x = 50, hub_y = 60\<rparr>,
                   \<lparr>hub_id = 3, hub_x = 50, hub_y = - 40\<rparr>],
           map_symbols = [], map_lights = []\<rparr> 80 =
   ([(StrId ''r1_L'', (0, 10)), (StrId ''r1_M'', (50, 10)), (StrId ''r1_R'', (100, 10)),
     (IntId 2, (50, 1010)), (IntId 1, (50, 60)), (IntId 3, (50, - 40))],
    [(StrId ''r1_L'', [(StrId ''r1_M'', 50)]),
     (StrId ''r1_M'', [(StrId ''r1_L'', 50), (StrId ''r1_R'', 50), (IntId 1, 50), (IntId 3, 50)]),
     (StrId ''r1_R'', [(StrId ''r1_M'', 50)]),
     (IntId 2, []),
     (IntId 1, [(StrId ''r1_M'', 50)]),
     (IntId 3, [(StrId ''r1_M'', 50)])])"
  by (simp add: build_graph_def add_road_def road_node_def str_int_1 Let_def
      dist_pt_def edges_append_def edges_get_def rect_overlap_def stitch_pair_def
      add_hub_def nearest_step_def sqrt_less_num num_less_sqrt sqrt_le_num
      sqrt_2500 sqrt_10000 sqrt_1000000)

lemma tie_find:
  "find_path
     [(StrId ''r1_L'', [(StrId ''r1_M'', 50)]),
      (StrId ''r1_M'', [(StrId ''r1_L'', 50), (StrId ''r1_R'', 50), (IntId 1, 50), (IntId 3, 50)]),
      (StrId ''r1_R'', [(StrId ''r1_M'', 50)]),
      (IntId 2, []),
      (IntId 1, [(StrId ''r1_M'', 50)]),
      (IntId 3, [(StrId ''r1_M'', 50)])]
     (IntId 1) (IntId 2) None = Some (Inl TypeError)"
  by (simp add: find_path_def find_path_loop.simps heappop_def heappush_def siftdown.simps
      siftup_def siftup_loop.simps Let_def edges_get_def edge_cost_def traffic_get_def
      lt_item_def)

text \<open>
  C9. A road with hubs 1 and 3 attached to its midpoint, both at distance 50, and hub 2
  out of reach of everything. \<open>build_graph\<close> leaves hub 2 in the edge map with an empty
  adjacency list. Routing from hub 1 to hub 2 reaches the midpoint at cost 50 and then
  pushes the road's two ends and hub 3, all at cost 100: the heap compares the entry of
  hub 3 (an integer id) with the entry of a road end (a string id) and raises
  TypeError, in \<open>find_path\<close> and so in \<open>spawn_car\<close>.
\<close>

theorem isolated_goal_type_error:
  "\<exists>sim.
     Simulator_init
       \<lparr>roads = [\<lparr>road_id = 1, road_x = 0, road_y = 0, road_w = 100, road_h = 20,
                      road_type = None\<rparr>],
           hubs = [\<lparr>hub_id = 2, hub_x = 50, hub_y = 1010\<rparr>,
                   \<lparr>hub_id = 1, hub_x = 50, hub_y = 60\<rparr>,
                   \<lparr>hub_id = 3, hub_x = 50, hub_y = - 40\<rparr>],
           map_symbols = [], map_lights = []\<rparr> = Inr sim \<and>
     map_of (sim_edges sim) (IntId 2) = Some [] \<and>
     find_path (sim_edges sim) (IntId 1) (IntId 2) None = Some (Inl TypeError) \<and>
     spawn_car sim (IntId 1) (IntId 2) 0 = Some (Inl TypeError)"
  by (simp add: Simulator_init_def tie_graph tie_find spawn_car_def Let_def)

section \<open>Symmetry of the edge map\<close>

lemma edges_get_append:
  "edges_get (edges_append es k e) u = (if u = k then edges_get es k @ [e] else edges_get es u)"
  by (simp add: edges_get_def edges_append_def update_conv')

lemma edges_get_reset:
  "edges_get (AList.update k [] es) u = (if u = k then [] else edges_get es u)"
  by (simp add: edges_get_def update_conv')

lemma keys_update: "fst ` set (AList.update k v al) = insert k (fst ` set al)"
  by (simp add: dom_update)

lemma symmetric_connect:
  "symmetric_edges es \<Longrightarrow> symmetric_edges (edges_append (edges_append es a (b, w)) b (a, w))"
  unfolding symmetric_edges_def edges_get_append by auto

lemma graph_inv_connect:
  assumes "graph_inv P (ns, es)" "a \<in> fst ` set ns" "b \<in> fst ` set ns"
  shows "graph_inv P (ns, edges_append (edges_append es a (b, w)) b (a, w))"
  using assms symmetric_connect [of es a b w]
  by (auto simp: graph_inv_def edges_get_append split: if_splits)

lemma graph_inv_add_node:
  assumes "graph_inv P (ns, es)"
  shows "graph_inv P (AList.update (StrId k) v ns, es)"
  using assms by (auto simp: graph_inv_def keys_update)

lemma graph_inv_add_road: "graph_inv P g \<Longrightarrow> graph_inv P (add_road r g)"
proof -
  assume g: "graph_inv P g"
  obtain ns es where ge: "g = (ns, es)" by (cases g)
  show ?thesis
  proof (cases "road_w r \<ge> road_h r")
    case True
    let ?L = "road_node (road_id r) ''L''" and ?M = "road_node (road_id r) ''M''"
      and ?R = "road_node (road_id r) ''R''"
    let ?ns1 = "AList.update ?R (road_x r + road_w r, road_y r + road_h r / 2)
       (AList.update ?M (road_x r + road_w r / 2, road_y r + road_h r / 2)
         (AList.update ?L (road_x r, road_y r + road_h r / 2) ns))"
    have 1: "graph_inv P (?ns1, es)"
      using g ge by (simp add: road_node_def graph_inv_add_node)
    have k: "?L \<in> fst ` set ?ns1" "?M \<in> fst ` set ?ns1" "?R \<in> fst ` set ?ns1"
      by (simp_all add: keys_update)
    from graph_inv_connect [OF graph_inv_connect [OF 1 k(1) k(2)] k(2) k(3)]
    show ?thesis using True ge by (simp add: add_road_def Let_def)
  next
    case False
    let ?L = "road_node (road_id r) ''T''" and ?M = "road_node (road_id r) ''M''"
      and ?R = "road_node (road_id r) ''B''"
    let ?ns1 = "AList.update ?R (road_x r + road_w r / 2, road_y r + road_h r)
       (AList.update ?M (road_x r + road_w r / 2, road_y r + road_h r / 2)
         (AList.update ?L (road_x r + road_w r / 2, road_y r) ns))"
    have 1: "graph_inv P (?ns1, es)"
      using g ge by (simp add: road_node_def graph_inv_add_node)
    have k: "?L \<in> fst ` set ?ns1" "?M \<in> fst ` set ?ns1" "?R \<in> fst ` set ?ns1"
      by (simp_all add: keys_update)
    from graph_inv_connect [OF graph_inv_connect [OF 1 k(1) k(2)] k(2) k(3)]
    show ?thesis using False ge by (simp add: add_road_def Let_def)
  qed
qed

lemma graph_inv_roads: "graph_inv P g \<Longrightarrow> graph_inv P (fold add_road rs g)"
  by (induction rs arbitrary: g) (simp_all add: graph_inv_add_road)

lemma nearest_in_candidates:
  "fold (nearest_step p) cs acc = Some b \<Longrightarrow> fst b \<in> fst ` set cs \<or> acc = Some b"
proof (induction cs arbitrary: acc)
  case Nil
  then show ?case by simp
next
  case (Cons c cs)
  from Cons.IH [OF Cons.prems [simplified]]
  show ?case by (auto simp: nearest_step_def Let_def split: option.splits if_splits)
qed

lemma graph_inv_connect_best:
  assumes "graph_inv P (ns, es)" "a \<in> fst ` set ns"
    and "fold (nearest_step p) cs None = best" "fst ` set cs \<subseteq> fst ` set ns"
  shows "graph_inv P (ns, connect_best a best es)"
proof (cases best)
  case None
  with assms(1) show ?thesis by (simp add: connect_best_def)
next
  case (Some b)
  with assms(3) nearest_in_candidates [of p cs None b] have "fst b \<in> fst ` set cs" by simp
  with assms(4) have "fst b \<in> fst ` set ns" by blast
  from graph_inv_connect [OF assms(1,2) this, of "snd b"] Some show ?thesis
    by (simp add: connect_best_def)
qed

lemma graph_inv_intersect_pair: "graph_inv P g \<Longrightarrow> graph_inv P (intersect_pair a b g)"
proof -
  assume g: "graph_inv P g"
  obtain ns es where ge: "g = (ns, es)" by (cases g)
  show ?thesis
  proof (cases "rect_overlap a b")
    case None
    with g show ?thesis by (simp add: intersect_pair_def)
  next
    case (Some ov)
    let ?id = "StrId (''i'' @ str_int (road_id a) @ ''_'' @ str_int (road_id b))"
    let ?c = "(fst ov + fst (snd (snd ov)) / 2, fst (snd ov) + snd (snd (snd ov)) / 2)"
    let ?ns1 = "AList.update ?id ?c ns"
    let ?ca = "filter (\<lambda>c. startswith (fst c) (''r'' @ str_int (road_id a) @ ''_'')) ?ns1"
    let ?cb = "filter (\<lambda>c. startswith (fst c) (''r'' @ str_int (road_id b) @ ''_'')) ?ns1"
    have 1: "graph_inv P (?ns1, es)" using g ge by (simp add: graph_inv_add_node)
    have k: "?id \<in> fst ` set ?ns1" by (simp add: keys_update)
    have 2: "graph_inv P (?ns1, connect_best ?id (fold (nearest_step ?c) ?ca None) es)"
      by (rule graph_inv_connect_best [OF 1 k refl]) auto
    have 3: "graph_inv P (?ns1, connect_best ?id (fold (nearest_step ?c) ?cb None)
               (connect_best ?id (fold (nearest_step ?c) ?ca None) es))"
      by (rule graph_inv_connect_best [OF 2 k refl]) auto
    with Some ge show ?thesis by (simp add: intersect_pair_def Let_def)
  qed
qed

lemma graph_inv_fold_intersect: "graph_inv P g \<Longrightarrow> graph_inv P (fold (intersect_pair a) rs g)"
  by (induction rs arbitrary: g) (simp_all add: graph_inv_intersect_pair)

lemma graph_inv_intersect_roads: "graph_inv P g \<Longrightarrow> graph_inv P (intersect_roads rs g)"
  by (induction rs arbitrary: g) (simp_all add: graph_inv_fold_intersect)

lemma graph_inv_stitch_pair:
  "graph_inv P (ns, es) \<Longrightarrow> fst c1 \<in> fst ` set ns \<Longrightarrow> fst c2 \<in> fst ` set ns \<Longrightarrow>
   graph_inv P (ns, stitch_pair c1 c2 es)"
  by (simp add: stitch_pair_def Let_def graph_inv_connect)

lemma graph_inv_fold_stitch:
  "graph_inv P (ns, es) \<Longrightarrow> fst c \<in> fst ` set ns \<Longrightarrow> fst ` set cs \<subseteq> fst ` set ns \<Longrightarrow>
   graph_inv P (ns, fold (stitch_pair c) cs es)"
  by (induction cs arbitrary: es) (simp_all add: graph_inv_stitch_pair)

lemma graph_inv_stitch_nodes:
  "graph_inv P (ns, es) \<Longrightarrow> fst ` set cs \<subseteq> fst ` set ns \<Longrightarrow>
   graph_inv P (ns, stitch_nodes cs es)"
  by (induction cs arbitrary: es) (simp_all add: graph_inv_fold_stitch)

lemma graph_inv_add_hub:
  assumes "graph_inv P g" "hub_id h \<notin> P"
  shows "graph_inv (insert (hub_id h) P) (add_hub d h g)"
proof -
  obtain ns es where ge: "g = (ns, es)" by (cases g)
  let ?hid = "IntId (hub_id h)"
  let ?p = "(hub_x h, hub_y h)"
  let ?ns1 = "AList.update ?hid ?p ns"
  let ?es1 = "AList.update ?hid [] es"
  have fresh: "edges_get es ?hid = []"
    using assms ge by (auto simp: graph_inv_def)
  have same: "edges_get ?es1 u = edges_get es u" for u
    using fresh by (simp add: edges_get_reset)
  have 1: "graph_inv (insert (hub_id h) P) (?ns1, ?es1)"
    using assms(1) ge by (auto simp: graph_inv_def symmetric_edges_def same keys_update)
  have k: "?hid \<in> fst ` set ?ns1" by (simp add: keys_update)
  let ?best = "fold (nearest_step ?p) (filter (\<lambda>c. fst c \<noteq> ?hid) ?ns1) None"
  show ?thesis
  proof (cases ?best)
    case None
    with 1 ge show ?thesis by (simp add: add_hub_def Let_def)
  next
    case (Some b)
    with nearest_in_candidates [of ?p "filter (\<lambda>c. fst c \<noteq> ?hid) ?ns1" None b]
    have "fst b \<in> fst ` set ?ns1" by auto
    from graph_inv_connect [OF 1 k this, of "snd b"] 1 Some ge show ?thesis
      by (simp add: add_hub_def Let_def)
  qed
qed

lemma graph_inv_hubs:
  "graph_inv P g \<Longrightarrow> distinct (map hub_id hs) \<Longrightarrow> P \<inter> hub_id ` set hs = {} \<Longrightarrow>
   graph_inv (P \<union> hub_id ` set hs) (fold (add_hub d) hs g)"
proof (induction hs arbitrary: P g)
  case Nil
  then show ?case by simp
next
  case (Cons h hs)
  have 1: "graph_inv (insert (hub_id h) P) (add_hub d h g)"
    using Cons.prems by (intro graph_inv_add_hub) auto
  have "graph_inv (insert (hub_id h) P \<union> hub_id ` set hs) (fold (add_hub d) hs (add_hub d h g))"
    using Cons.prems by (intro Cons.IH [OF 1]) auto
  then show ?case by simp
qed

lemma graph_inv_build:
  assumes "distinct (map hub_id (hubs md))"
  shows "graph_inv (hub_id ` set (hubs md)) (build_graph md d)"
proof -
  have 0: "graph_inv {} ([], [])"
    by (simp add: graph_inv_def symmetric_edges_def edges_get_def)
  let ?g2 = "intersect_roads (roads md) (fold add_road (roads md) ([], []))"
  have 2: "graph_inv {} ?g2"
    by (intro graph_inv_intersect_roads graph_inv_roads 0)
  then have "graph_inv {} (fst ?g2, snd ?g2)" by simp
  then have 3: "graph_inv {} (fst ?g2, stitch_nodes (fst ?g2) (snd ?g2))"
    by (rule graph_inv_stitch_nodes) simp
  from graph_inv_hubs [OF 3 assms, of d] show ?thesis
    by (simp add: build_graph_def Let_def)
qed

text \<open>
  C6. When the hubs of the map document have pairwise different ids, the edge map that
  \<open>build_graph\<close> returns is symmetric: an entry \<open>(v, w)\<close> in the adjacency list of \<open>u\<close>
  comes with an entry \<open>(u, w)\<close> in the adjacency list of \<open>v\<close>.
\<close>

theorem build_graph_symmetric:
  assumes "distinct (map hub_id (hubs md))"
    and "(v, w) \<in> set (edges_get (snd (build_graph md hub_snap_dist)) u)"
  shows "(u, w) \<in> set (edges_get (snd (build_graph md hub_snap_dist)) v)"
  using graph_inv_build [OF assms(1), of hub_snap_dist] assms(2)
  by (simp add: graph_inv_def symmetric_edges_def)

theorem build_graph_symmetric_witness:
  "(IntId 1, 50) \<in> set (edges_get (snd (build_graph
       \<lparr>roads = [\<lparr>road_id = 1, road_x = 0, road_y = 0, road_w = 100, road_h = 20,
                      road_type = None\<rparr>],
           hubs = [\<lparr>hub_id = 2, hub_x = 50, hub_y = 1010\<rparr>,
                   \<lparr>hub_id = 1, hub_x = 50, hub_y = 60\<rparr>,
                   \<lparr>hub_id = 3, hub_x = 50, hub_y = - 40\<rparr>],
           map_symbols = [], map_lights = []\<rparr> 80)) (StrId ''r1_M''))"
  using build_graph_symmetric [of "\<lparr>roads = [\<lparr>road_id = 1, road_x = 0, road_y = 0, road_w = 100, road_h = 20,
                      road_type = None\<rparr>],
           hubs = [\<lparr>hub_id = 2, hub_x = 50, hub_y = 1010\<rparr>,
                   \<lparr>hub_id = 1, hub_x = 50, hub_y = 60\<rparr>,
                   \<lparr>hub_id = 3, hub_x = 50, hub_y = - 40\<rparr>],
           map_symbols = [], map_lights = []\<rparr>" "StrId ''r1_M''" 50 80 "IntId 1"]
  by (simp add: tie_graph edges_get_def)

section \<open>Correctness of the router\<close>

subsection \<open>Every exception of the queue is a TypeError\<close>

lemma lt_node_error: "lt_node a b = Inl e \<Longrightarrow> e = TypeError"
  by (cases a; cases b) auto

lemma lt_path_error: "lt_path p q = Inl e \<Longrightarrow> e = TypeError"
  by (induction p q rule: lt_path.induct) (auto split: if_splits dest: lt_node_error)

lemma lt_item_error: "lt_item a b = Inl e \<Longrightarrow> e = TypeError"
  by (auto simp: lt_item_def split: if_splits dest: lt_node_error lt_path_error)

lemma siftdown_error: "siftdown h sp pos x = Inl e \<Longrightarrow> e = TypeError"
proof (induction pos arbitrary: h rule: less_induct)
  case (less pos)
  show ?case
  proof (cases "sp < pos")
    case False
    with less.prems show ?thesis by (simp add: siftdown_stop)
  next
    case True
    show ?thesis
    proof (cases "lt_item x (h ! ((pos - 1) div 2))")
      case (Inl e')
      with True less.prems have "e' = e" by (simp add: siftdown_err)
      with Inl show ?thesis by (auto dest: lt_item_error)
    next
      case (Inr b)
      show ?thesis
      proof (cases b)
        case t: True
        with Inr True less.prems
        have "siftdown (h[pos := h ! ((pos - 1) div 2)]) sp ((pos - 1) div 2) x = Inl e"
          by (simp add: siftdown_up)
        moreover have "(pos - 1) div 2 < pos" using True by (intro parent_less) simp
        ultimately show ?thesis using less.IH by blast
      next
        case False
        with Inr True less.prems show ?thesis by (simp add: siftdown_stay)
      qed
    qed
  qed
qed

lemma siftup_loop_error: "siftup_loop h pos = Inl e \<Longrightarrow> e = TypeError"
proof (induction "length h - pos" arbitrary: h pos rule: less_induct)
  case less
  show ?case
  proof (cases "2 * pos + 1 < length h")
    case False
    with less.prems show ?thesis by (simp add: siftup_loop_leaf)
  next
    case True
    show ?thesis
    proof (cases "2 * pos + 2 < length h")
      case False
      with True less.prems
      have "siftup_loop (h[pos := h ! (2 * pos + 1)]) (2 * pos + 1) = Inl e"
        by (simp add: siftup_loop_one)
      moreover have "length (h[pos := h ! (2 * pos + 1)]) - (2 * pos + 1) < length h - pos"
        using True by simp
      ultimately show ?thesis using less.hyps by blast
    next
      case r: True
      show ?thesis
      proof (cases "lt_item (h ! (2 * pos + 1)) (h ! (2 * pos + 2))")
        case (Inl e')
        with r less.prems have "e' = e" by (simp add: siftup_loop_err)
        with Inl show ?thesis by (auto dest: lt_item_error)
      next
        case (Inr b)
        show ?thesis
        proof (cases b)
          case t: True
          with Inr r less.prems
          have "siftup_loop (h[pos := h ! (2 * pos + 1)]) (2 * pos + 1) = Inl e"
            by (simp add: siftup_loop_left)
          moreover have "length (h[pos := h ! (2 * pos + 1)]) - (2 * pos + 1) < length h - pos"
            using True by simp
          ultimately show ?thesis using less.hyps by blast
        next
          case False
          with Inr r less.prems
          have "siftup_loop (h[pos := h ! (2 * pos + 2)]) (2 * pos + 2) = Inl e"
            by (simp add: siftup_loop_right)
          moreover have "length (h[pos := h ! (2 * pos + 2)]) - (2 * pos + 2) < length h - pos"
            using r by simp
          ultimately show ?thesis using less.hyps by blast
        qed
      qed
    qed
  qed
qed

lemma heappush_error: "heappush h x = Inl e \<Longrightarrow> e = TypeError"
  by (auto simp: heappush_def dest: siftdown_error)

lemma heappop_error: "heappop h = Inl e \<Longrightarrow> e = TypeError"
  by (auto simp: heappop_def siftup_def Let_def split: if_splits sum.splits
      dest: siftdown_error siftup_loop_error)

lemma push_neighbours_error:
  "push_neighbours tc seen cost node path adj pq = Inl e \<Longrightarrow> e = TypeError"
  by (induction adj arbitrary: pq)
     (auto simp: Let_def split: if_splits sum.splits dest: heappush_error)

subsection \<open>The loop invariant\<close>

lemma frontier:
  assumes "walk es tc s q c" "nonneg_costs es tc" "route_inv es tc s goal pq seen"
  shows "(\<exists>cx. seen (last q) = Some cx \<and> cx \<le> c) \<or> (\<exists>it \<in> set pq. fst it \<le> c)"
  using assms(1)
proof (induction rule: walk.induct)
  case walk_start
  from assms(3) show ?case by (auto simp: route_inv_def)
next
  case (walk_step p c v w)
  have nn: "0 \<le> edge_cost tc (last p) v w"
    using assms(2) walk_step.hyps(2) by (auto simp: nonneg_costs_def)
  from walk_step.IH show ?case
  proof
    assume "\<exists>cx. seen (last p) = Some cx \<and> cx \<le> c"
    then obtain cu where cu: "seen (last p) = Some cu" "cu \<le> c" by blast
    from assms(3) cu(1) walk_step.hyps(2)
    have "(\<exists>cv. seen v = Some cv \<and> cv \<le> cu + edge_cost tc (last p) v w) \<or>
          (\<exists>it \<in> set pq. fst (snd it) = v \<and> fst it \<le> cu + edge_cost tc (last p) v w)"
      unfolding route_inv_def by blast
    then show ?thesis
    proof
      assume "\<exists>cv. seen v = Some cv \<and> cv \<le> cu + edge_cost tc (last p) v w"
      then obtain cv where "seen v = Some cv" "cv \<le> cu + edge_cost tc (last p) v w" by blast
      with cu(2) show ?thesis by auto
    next
      assume "\<exists>it \<in> set pq. fst (snd it) = v \<and> fst it \<le> cu + edge_cost tc (last p) v w"
      then obtain it where "it \<in> set pq" "fst it \<le> cu + edge_cost tc (last p) v w" by blast
      with cu(2) have "it \<in> set pq \<and> fst it \<le> c + edge_cost tc (last p) v w" by simp
      then show ?thesis by blast
    qed
  next
    assume "\<exists>it \<in> set pq. fst it \<le> c"
    then obtain it where "it \<in> set pq" "fst it \<le> c" by blast
    with nn have "it \<in> set pq \<and> fst it \<le> c + edge_cost tc (last p) v w" by simp
    then show ?thesis by blast
  qed
qed

lemma frontier_goal:
  assumes "walk es tc s q c" "last q = goal" "nonneg_costs es tc" "route_inv es tc s goal pq seen"
  shows "\<exists>it \<in> set pq. fst it \<le> c"
proof -
  from assms(4) have "seen goal = None" by (simp add: route_inv_def)
  with frontier [OF assms(1,3,4)] assms(2) show ?thesis by simp
qed

lemma push_neighbours_ok:
  assumes "push_neighbours tc seen cost node path adj pq = Inr pq2" "heap_ok pq"
  shows "heap_ok pq2 \<and> set pq \<subseteq> set pq2 \<and>
     (\<forall>it \<in> set pq2. it \<in> set pq \<or>
        (\<exists>e \<in> set adj. it = (cost + edge_cost tc node (fst e) (snd e), fst e, path @ [fst e]))) \<and>
     (\<forall>e \<in> set adj.
        (cost + edge_cost tc node (fst e) (snd e), fst e, path @ [fst e]) \<in> set pq2 \<or>
        (\<exists>c. seen (fst e) = Some c \<and> c \<le> cost + edge_cost tc node (fst e) (snd e)))"
  using assms
proof (induction adj arbitrary: pq)
  case Nil
  then show ?case by simp
next
  case (Cons e rest)
  let ?nc = "cost + edge_cost tc node (fst e) (snd e)"
  let ?it = "(?nc, fst e, path @ [fst e])"
  show ?case
  proof (cases "case seen (fst e) of None \<Rightarrow> True | Some c \<Rightarrow> ?nc < c")
    case True
    with Cons.prems(1) obtain pq1 where p1: "heappush pq ?it = Inr pq1"
      and rec: "push_neighbours tc seen cost node path rest pq1 = Inr pq2"
      by (auto simp: Let_def split: sum.splits)
    from heappush_ok [OF p1 Cons.prems(2)]
    have h1: "heap_ok pq1" and m1: "mset pq1 = add_mset ?it (mset pq)" by auto
    from m1 have s1: "set pq1 = insert ?it (set pq)"
      by (metis set_mset_add_mset_insert set_mset_mset)
    from Cons.IH [OF rec h1] s1 show ?thesis by auto
  next
    case False
    with Cons.prems(1) have rec: "push_neighbours tc seen cost node path rest pq = Inr pq2"
      by (simp add: Let_def)
    from False have "\<exists>c. seen (fst e) = Some c \<and> c \<le> ?nc"
      by (auto split: option.splits)
    with Cons.IH [OF rec Cons.prems(2)] show ?thesis by auto
  qed
qed

lemma route_inv_discard:
  assumes inv: "route_inv es tc s goal pq seen"
    and pop: "heappop pq = Inr (it, pq1)" and ne: "pq \<noteq> []"
    and sn: "seen (fst (snd it)) = Some c" "c \<le> fst it"
  shows "route_inv es tc s goal pq1 seen"
proof -
  from inv have h: "heap_ok pq" by (simp add: route_inv_def)
  from heappop_ok [OF pop h ne]
  have h1: "heap_ok pq1" and m: "mset pq = add_mset it (mset pq1)" by auto
  from m have st: "set pq = insert it (set pq1)"
    by (metis set_mset_add_mset_insert set_mset_mset)
  have start: "(\<exists>c. seen s = Some c \<and> c \<le> 0) \<or> (\<exists>it \<in> set pq1. fst it \<le> 0 \<and> fst (snd it) = s)"
  proof -
    from inv have "(\<exists>c. seen s = Some c \<and> c \<le> 0) \<or> (\<exists>it \<in> set pq. fst it \<le> 0 \<and> fst (snd it) = s)"
      by (simp add: route_inv_def)
    then show ?thesis
    proof
      assume "\<exists>c. seen s = Some c \<and> c \<le> 0"
      then show ?thesis ..
    next
      assume "\<exists>it \<in> set pq. fst it \<le> 0 \<and> fst (snd it) = s"
      then obtain j where j: "j \<in> set pq" "fst j \<le> 0" "fst (snd j) = s" by blast
      show ?thesis
      proof (cases "j = it")
        case True
        with j sn have "seen s = Some c \<and> c \<le> 0" by simp
        then show ?thesis by blast
      next
        case False
        with j st have "j \<in> set pq1" by simp
        with j show ?thesis by blast
      qed
    qed
  qed
  have k: "(\<exists>cv. seen v = Some cv \<and> cv \<le> cu + edge_cost tc u v w) \<or>
          (\<exists>it \<in> set pq1. fst (snd it) = v \<and> fst it \<le> cu + edge_cost tc u v w)"
    if "seen u = Some cu" "(v, w) \<in> set (edges_get es u)" for u cu v w
  proof -
    from inv that
    have "(\<exists>cv. seen v = Some cv \<and> cv \<le> cu + edge_cost tc u v w) \<or>
          (\<exists>it \<in> set pq. fst (snd it) = v \<and> fst it \<le> cu + edge_cost tc u v w)"
      unfolding route_inv_def by blast
    then show ?thesis
    proof
      assume "\<exists>cv. seen v = Some cv \<and> cv \<le> cu + edge_cost tc u v w"
      then show ?thesis ..
    next
      assume "\<exists>it \<in> set pq. fst (snd it) = v \<and> fst it \<le> cu + edge_cost tc u v w"
      then obtain j where j: "j \<in> set pq" "fst (snd j) = v" "fst j \<le> cu + edge_cost tc u v w"
        by blast
      show ?thesis
      proof (cases "j = it")
        case True
        with j sn have "seen v = Some c \<and> c \<le> cu + edge_cost tc u v w" by simp
        then show ?thesis by blast
      next
        case False
        with j st have "j \<in> set pq1" by simp
        with j show ?thesis by blast
      qed
    qed
  qed
  from inv st have items: "\<forall>it \<in> set pq1. walk es tc s (snd (snd it)) (fst it) \<and>
      last (snd (snd it)) = fst (snd it)"
    by (simp add: route_inv_def)
  from inv have "seen goal = None" by (simp add: route_inv_def)
  with h1 items start k show ?thesis unfolding route_inv_def by blast
qed

lemma route_inv_process:
  assumes inv: "route_inv es tc s goal pq seen"
    and pop: "heappop pq = Inr (it, pq1)" and ne: "pq \<noteq> []"
    and ng: "fst (snd it) \<noteq> goal"
    and ns: "\<not> (case seen (fst (snd it)) of None \<Rightarrow> False | Some c \<Rightarrow> c \<le> fst it)"
    and push: "push_neighbours tc (seen(fst (snd it) \<mapsto> fst it)) (fst it) (fst (snd it))
                 (snd (snd it)) (edges_get es (fst (snd it))) pq1 = Inr pq2"
  shows "route_inv es tc s goal pq2 (seen(fst (snd it) \<mapsto> fst it))"
proof -
  let ?cost = "fst it" and ?node = "fst (snd it)" and ?path = "snd (snd it)"
  let ?seen = "seen(?node \<mapsto> ?cost)"
  from inv have h: "heap_ok pq" by (simp add: route_inv_def)
  from heappop_ok [OF pop h ne]
  have h1: "heap_ok pq1" and m: "mset pq = add_mset it (mset pq1)" by auto
  from m have st: "set pq = insert it (set pq1)"
    by (metis set_mset_add_mset_insert set_mset_mset)
  from push_neighbours_ok [OF push h1]
  have h2: "heap_ok pq2" and sub: "set pq1 \<subseteq> set pq2"
    and new: "\<forall>j \<in> set pq2. j \<in> set pq1 \<or>
        (\<exists>e \<in> set (edges_get es ?node).
           j = (?cost + edge_cost tc ?node (fst e) (snd e), fst e, ?path @ [fst e]))"
    and pushed: "\<forall>e \<in> set (edges_get es ?node).
        (?cost + edge_cost tc ?node (fst e) (snd e), fst e, ?path @ [fst e]) \<in> set pq2 \<or>
        (\<exists>c. ?seen (fst e) = Some c \<and> c \<le> ?cost + edge_cost tc ?node (fst e) (snd e))"
    by auto
  from inv st have itw: "walk es tc s ?path ?cost" "last ?path = ?node"
    by (auto simp: route_inv_def)
  have old: "\<And>c. seen ?node = Some c \<Longrightarrow> ?cost < c"
    using ns by (auto split: option.splits)
  have items: "\<forall>j \<in> set pq2. walk es tc s (snd (snd j)) (fst j) \<and> last (snd (snd j)) = fst (snd j)"
  proof
    fix j assume j: "j \<in> set pq2"
    from new j have "j \<in> set pq1 \<or>
        (\<exists>e \<in> set (edges_get es ?node).
           j = (?cost + edge_cost tc ?node (fst e) (snd e), fst e, ?path @ [fst e]))" by blast
    then show "walk es tc s (snd (snd j)) (fst j) \<and> last (snd (snd j)) = fst (snd j)"
    proof
      assume "j \<in> set pq1"
      with inv st show ?thesis by (simp add: route_inv_def)
    next
      assume "\<exists>e \<in> set (edges_get es ?node).
           j = (?cost + edge_cost tc ?node (fst e) (snd e), fst e, ?path @ [fst e])"
      then obtain e where e: "e \<in> set (edges_get es ?node)"
        "j = (?cost + edge_cost tc ?node (fst e) (snd e), fst e, ?path @ [fst e])" by blast
      from e(1) itw(2) have "(fst e, snd e) \<in> set (edges_get es (last ?path))" by simp
      from walk_step [OF itw(1) this] itw(2) e(2) show ?thesis by simp
    qed
  qed
  have goal: "?seen goal = None" using inv ng by (simp add: route_inv_def)
  have start: "(\<exists>c. ?seen s = Some c \<and> c \<le> 0) \<or> (\<exists>j \<in> set pq2. fst j \<le> 0 \<and> fst (snd j) = s)"
  proof -
    from inv have "(\<exists>c. seen s = Some c \<and> c \<le> 0) \<or> (\<exists>j \<in> set pq. fst j \<le> 0 \<and> fst (snd j) = s)"
      by (simp add: route_inv_def)
    then show ?thesis
    proof
      assume "\<exists>c. seen s = Some c \<and> c \<le> 0"
      then obtain c where c: "seen s = Some c" "c \<le> 0" by blast
      show ?thesis
      proof (cases "?node = s")
        case True
        with old c have "?cost < c" by simp
        with c True have "?seen s = Some ?cost \<and> ?cost \<le> 0" by simp
        then show ?thesis by blast
      next
        case False
        with c have "?seen s = Some c \<and> c \<le> 0" by simp
        then show ?thesis by blast
      qed
    next
      assume "\<exists>j \<in> set pq. fst j \<le> 0 \<and> fst (snd j) = s"
      then obtain j where j: "j \<in> set pq" "fst j \<le> 0" "fst (snd j) = s" by blast
      show ?thesis
      proof (cases "j = it")
        case True
        with j have "?seen s = Some ?cost \<and> ?cost \<le> 0" by simp
        then show ?thesis by blast
      next
        case False
        with j st sub have "j \<in> set pq2" by auto
        with j show ?thesis by blast
      qed
    qed
  qed
  have k: "(\<exists>cv. ?seen v = Some cv \<and> cv \<le> cu + edge_cost tc u v w) \<or>
          (\<exists>j \<in> set pq2. fst (snd j) = v \<and> fst j \<le> cu + edge_cost tc u v w)"
    if u: "?seen u = Some cu" and e: "(v, w) \<in> set (edges_get es u)" for u cu v w
  proof (cases "u = ?node")
    case True
    with u have cu: "cu = ?cost" by simp
    from e True have "(v, w) \<in> set (edges_get es ?node)" by simp
    from pushed [rule_format, OF this]
    have "(?cost + edge_cost tc ?node v w, v, ?path @ [v]) \<in> set pq2 \<or>
        (\<exists>c. ?seen v = Some c \<and> c \<le> ?cost + edge_cost tc ?node v w)" by simp
    then show ?thesis
    proof
      assume "(?cost + edge_cost tc ?node v w, v, ?path @ [v]) \<in> set pq2"
      then have "\<exists>j \<in> set pq2. fst (snd j) = v \<and> fst j \<le> cu + edge_cost tc u v w"
        using cu True by force
      then show ?thesis ..
    next
      assume "\<exists>c. ?seen v = Some c \<and> c \<le> ?cost + edge_cost tc ?node v w"
      then show ?thesis using cu True by simp
    qed
  next
    case False
    with u have su: "seen u = Some cu" by simp
    from inv su e
    have "(\<exists>cv. seen v = Some cv \<and> cv \<le> cu + edge_cost tc u v w) \<or>
          (\<exists>j \<in> set pq. fst (snd j) = v \<and> fst j \<le> cu + edge_cost tc u v w)"
      unfolding route_inv_def by blast
    then show ?thesis
    proof
      assume "\<exists>cv. seen v = Some cv \<and> cv \<le> cu + edge_cost tc u v w"
      then obtain cv where cv: "seen v = Some cv" "cv \<le> cu + edge_cost tc u v w" by blast
      show ?thesis
      proof (cases "v = ?node")
        case True
        with old cv have "?cost < cv" by simp
        with cv True have "?seen v = Some ?cost \<and> ?cost \<le> cu + edge_cost tc u v w" by simp
        then show ?thesis by blast
      next
        case f: False
        with cv have "?seen v = Some cv \<and> cv \<le> cu + edge_cost tc u v w" by simp
        then show ?thesis by blast
      qed
    next
      assume "\<exists>j \<in> set pq. fst (snd j) = v \<and> fst j \<le> cu + edge_cost tc u v w"
      then obtain j where j: "j \<in> set pq" "fst (snd j) = v" "fst j \<le> cu + edge_cost tc u v w"
        by blast
      show ?thesis
      proof (cases "j = it")
        case True
        with j have "?seen v = Some ?cost \<and> ?cost \<le> cu + edge_cost tc u v w" by simp
        then show ?thesis by blast
      next
        case f: False
        with j st sub have "j \<in> set pq2" by auto
        with j show ?thesis by blast
      qed
    qed
  qed
  from h2 items goal start k show ?thesis unfolding route_inv_def by blast
qed

lemma find_path_loop_partial_aux:
  assumes "find_path_loop es0 goal0 tc0 pq0 seen0 = Some r0"
  shows "route_inv es0 tc0 s goal0 pq0 seen0 \<longrightarrow> route_post es0 tc0 s goal0 r0"
proof (rule find_path_loop.raw_induct
    [where P = "\<lambda>es goal tc pq seen r. route_inv es tc s goal pq seen \<longrightarrow> route_post es tc s goal r",
      OF _ assms], goal_cases)
  case (1 loop es goal tc pq seen r)
  note body = 1(2)
  have IH: "route_post es' tc' s goal' r'"
    if "loop es' goal' tc' pq' seen' = Some r'" "route_inv es' tc' s goal' pq' seen'"
    for es' goal' tc' pq' seen' r'
    using 1(1) that by blast
  show ?case
  proof
  assume inv: "route_inv es tc s goal pq seen"
  show "route_post es tc s goal r"
  proof (cases "pq = []")
    case True
    with body have r: "r = Inr None" by simp
    have "\<not> (\<exists>q c. walk es tc s q c \<and> last q = goal)" if nn: "nonneg_costs es tc"
    proof
      assume "\<exists>q c. walk es tc s q c \<and> last q = goal"
      then obtain q c where "walk es tc s q c" "last q = goal" by blast
      from frontier_goal [OF this nn inv] True show False by simp
    qed
    with r show ?thesis by (simp add: route_post_def)
  next
    case ne: False
    show ?thesis
    proof (cases "heappop pq")
      case (Inl e)
      with ne body have "r = Inl e" by simp
      with heappop_error [OF Inl] show ?thesis by (simp add: route_post_def)
    next
      case (Inr res)
      obtain it pq1 where res: "res = (it, pq1)" by (cases res)
      with Inr have pop: "heappop pq = Inr (it, pq1)" by simp
      from inv have h: "heap_ok pq" by (simp add: route_inv_def)
      from heappop_ok [OF pop h ne]
      have m: "mset pq = add_mset it (mset pq1)" and mn: "\<forall>y \<in> set pq. fst it \<le> fst y" by auto
      from m have itin: "it \<in> set pq" by (metis set_mset_mset union_single_eq_member)
      show ?thesis
      proof (cases "fst (snd it) = goal")
        case True
        with ne pop body have r: "r = Inr (Some (snd (snd it)))" by (simp add: Let_def)
        from inv itin True have w: "walk es tc s (snd (snd it)) (fst it)" "last (snd (snd it)) = goal"
          by (auto simp: route_inv_def)
        have "fst it \<le> c'" if nn: "nonneg_costs es tc" and q: "walk es tc s q c'" "last q = goal"
          for q c'
        proof -
          from frontier_goal [OF q nn inv] obtain j where "j \<in> set pq" "fst j \<le> c'" by blast
          with mn show ?thesis by force
        qed
        with w r show ?thesis unfolding route_post_def by auto
      next
        case ng: False
        show ?thesis
        proof (cases "case seen (fst (snd it)) of None \<Rightarrow> False | Some c \<Rightarrow> c \<le> fst it")
          case True
          with ne pop ng body have rec: "loop es goal tc pq1 seen = Some r" by (simp add: Let_def)
          from True obtain c where c: "seen (fst (snd it)) = Some c" "c \<le> fst it"
            by (auto split: option.splits)
          from IH [OF rec route_inv_discard [OF inv pop ne c]] show ?thesis .
        next
          case nseen: False
          let ?seen = "seen(fst (snd it) \<mapsto> fst it)"
          show ?thesis
          proof (cases "push_neighbours tc ?seen (fst it) (fst (snd it)) (snd (snd it))
                          (edges_get es (fst (snd it))) pq1")
            case (Inl e)
            with ne pop ng nseen body have "r = Inl e" by (simp add: Let_def)
            with push_neighbours_error [OF Inl] show ?thesis by (simp add: route_post_def)
          next
            case (Inr pq2)
            with ne pop ng nseen body have rec: "loop es goal tc pq2 ?seen = Some r"
              by (simp add: Let_def)
            from IH [OF rec route_inv_process [OF inv pop ne ng nseen Inr]] show ?thesis .
          qed
        qed
      qed
    qed
  qed
  qed
qed

lemma find_path_loop_partial:
  "find_path_loop es goal tc pq seen = Some r \<Longrightarrow> route_inv es tc s goal pq seen \<Longrightarrow>
   route_post es tc s goal r"
  using find_path_loop_partial_aux by blast

lemma route_inv_init: "route_inv es tc s goal [(0, s, [s])] Map.empty"
  by (simp add: route_inv_def heap_ok_def walk_start)

subsection \<open>Termination\<close>

lemma finite_targets: "finite (targets es)"
  by (simp add: targets_def)

lemma edges_get_target:
  assumes "e \<in> set (edges_get es u)"
  shows "fst e \<in> targets es"
proof (cases "map_of es u")
  case None
  with assms show ?thesis by (simp add: edges_get_def)
next
  case (Some adj)
  then have "(u, adj) \<in> set es" by (rule map_of_SomeD)
  then have "adj \<in> snd ` set es" by force
  moreover from Some assms have "e \<in> set adj" by (simp add: edges_get_def)
  ultimately show ?thesis unfolding targets_def by blast
qed

lemma find_path_loop_terminates_aux:
  assumes nn: "nonneg_costs es tc"
  shows "m = (card (insert s (targets es) - dom seen), length pq) \<Longrightarrow>
         term_inv es s pq seen \<Longrightarrow> \<exists>r. find_path_loop es goal tc pq seen = Some r"
proof (induction m arbitrary: pq seen rule: wf_induct_rule [OF wf_lex_prod [OF wf_less_than wf_less_than]])
  case (1 m pq seen)
  have IH: "\<exists>r. find_path_loop es goal tc pq' seen' = Some r"
    if "((card (insert s (targets es) - dom seen'), length pq'),
         (card (insert s (targets es) - dom seen), length pq)) \<in> less_than <*lex*> less_than"
       "term_inv es s pq' seen'" for pq' seen'
    using "1.IH" [OF _ refl that(2)] that(1) "1.prems"(1) by simp
  note inv = "1.prems"(2)
  let ?N = "insert s (targets es)"
  show ?case
  proof (cases "pq = []")
    case True
    then show ?thesis by (subst find_path_loop.simps) simp
  next
    case ne: False
    show ?thesis
    proof (cases "heappop pq")
      case (Inl e)
      with ne show ?thesis by (subst find_path_loop.simps) simp
    next
      case (Inr res)
      obtain it pq1 where res: "res = (it, pq1)" by (cases res)
      with Inr have pop: "heappop pq = Inr (it, pq1)" by simp
      from inv have h: "heap_ok pq" by (simp add: term_inv_def)
      from heappop_ok [OF pop h ne]
      have h1: "heap_ok pq1" and m: "mset pq = add_mset it (mset pq1)"
        and mn: "\<forall>y \<in> set pq. fst it \<le> fst y" by auto
      from m have st: "set pq = insert it (set pq1)"
        by (metis set_mset_add_mset_insert set_mset_mset)
      from m have len: "length pq = Suc (length pq1)"
        by (metis size_mset size_add_mset)
      show ?thesis
      proof (cases "fst (snd it) = goal")
        case True
        with ne pop show ?thesis by (subst find_path_loop.simps) (simp add: Let_def)
      next
        case ng: False
        show ?thesis
        proof (cases "case seen (fst (snd it)) of None \<Rightarrow> False | Some c \<Rightarrow> c \<le> fst it")
          case True
          have "term_inv es s pq1 seen"
            using inv h1 st by (auto simp: term_inv_def)
          moreover have "((card (?N - dom seen), length pq1), (card (?N - dom seen), length pq))
                \<in> less_than <*lex*> less_than"
            using len by simp
          ultimately obtain r where "find_path_loop es goal tc pq1 seen = Some r"
            using IH by blast
          with ne pop ng True show ?thesis
            by (subst find_path_loop.simps) (simp add: Let_def)
        next
          case nseen: False
          let ?cost = "fst it" and ?node = "fst (snd it)"
          let ?seen = "seen(?node \<mapsto> ?cost)"
          have itin: "it \<in> set pq" using st by simp
          have fresh: "seen ?node = None"
          proof (cases "seen ?node")
            case None
            then show ?thesis .
          next
            case (Some c)
            with inv itin have "c \<le> ?cost" unfolding term_inv_def by blast
            with Some nseen show ?thesis by simp
          qed
          show ?thesis
          proof (cases "push_neighbours tc ?seen ?cost ?node (snd (snd it))
                          (edges_get es ?node) pq1")
            case (Inl e)
            with ne pop ng nseen show ?thesis
              by (subst find_path_loop.simps) (simp add: Let_def)
          next
            case (Inr pq2)
            from push_neighbours_ok [OF Inr h1]
            have h2: "heap_ok pq2"
              and new: "\<forall>j \<in> set pq2. j \<in> set pq1 \<or>
                (\<exists>e \<in> set (edges_get es ?node).
                   j = (?cost + edge_cost tc ?node (fst e) (snd e), fst e, snd (snd it) @ [fst e]))"
              by auto
            have nodes: "\<forall>j \<in> set pq2. fst (snd j) \<in> ?N"
            proof
              fix j assume "j \<in> set pq2"
              with new have "j \<in> set pq1 \<or>
                (\<exists>e \<in> set (edges_get es ?node).
                   j = (?cost + edge_cost tc ?node (fst e) (snd e), fst e, snd (snd it) @ [fst e]))"
                by blast
              then show "fst (snd j) \<in> ?N"
              proof
                assume "j \<in> set pq1"
                with inv st show ?thesis by (simp add: term_inv_def)
              next
                assume "\<exists>e \<in> set (edges_get es ?node).
                   j = (?cost + edge_cost tc ?node (fst e) (snd e), fst e, snd (snd it) @ [fst e])"
                then show ?thesis using edges_get_target by auto
              qed
            qed
            have le: "\<forall>j \<in> set pq2. ?cost \<le> fst j"
            proof
              fix j assume "j \<in> set pq2"
              with new have "j \<in> set pq1 \<or>
                (\<exists>e \<in> set (edges_get es ?node).
                   j = (?cost + edge_cost tc ?node (fst e) (snd e), fst e, snd (snd it) @ [fst e]))"
                by blast
              then show "?cost \<le> fst j"
              proof
                assume "j \<in> set pq1"
                with mn st show ?thesis by simp
              next
                assume "\<exists>e \<in> set (edges_get es ?node).
                   j = (?cost + edge_cost tc ?node (fst e) (snd e), fst e, snd (snd it) @ [fst e])"
                then obtain e where e: "e \<in> set (edges_get es ?node)"
                  "j = (?cost + edge_cost tc ?node (fst e) (snd e), fst e, snd (snd it) @ [fst e])"
                  by blast
                from e(1) have "(fst e, snd e) \<in> set (edges_get es ?node)" by simp
                with nn have "0 \<le> edge_cost tc ?node (fst e) (snd e)"
                  unfolding nonneg_costs_def by blast
                with e(2) show ?thesis by simp
              qed
            qed
            have bound: "\<forall>j \<in> set pq2. \<forall>u c. ?seen u = Some c \<longrightarrow> c \<le> fst j"
            proof (intro ballI allI impI)
              fix j u c assume j: "j \<in> set pq2" and u: "?seen u = Some c"
              show "c \<le> fst j"
              proof (cases "u = ?node")
                case True
                with u le j show ?thesis by simp
              next
                case False
                with u have "seen u = Some c" by simp
                with inv itin have "c \<le> ?cost" unfolding term_inv_def by blast
                with le j show ?thesis by force
              qed
            qed
            have inv2: "term_inv es s pq2 ?seen"
              using h2 nodes bound unfolding term_inv_def by blast
            have "?node \<in> ?N" using inv itin by (simp add: term_inv_def)
            with fresh have "?N - dom ?seen \<subset> ?N - dom seen" by auto
            then have "card (?N - dom ?seen) < card (?N - dom seen)"
              by (intro psubset_card_mono) (simp_all add: finite_targets)
            then have "((card (?N - dom ?seen), length pq2), (card (?N - dom seen), length pq))
                \<in> less_than <*lex*> less_than" by simp
            with inv2 obtain r where "find_path_loop es goal tc pq2 ?seen = Some r"
              using IH by blast
            with ne pop ng nseen Inr show ?thesis
              by (subst find_path_loop.simps) (simp add: Let_def)
          qed
        qed
      qed
    qed
  qed
qed

lemma find_path_loop_terminates:
  "nonneg_costs es tc \<Longrightarrow> term_inv es s pq seen \<Longrightarrow>
   \<exists>r. find_path_loop es goal tc pq seen = Some r"
  using find_path_loop_terminates_aux [OF _ refl] by blast

lemma term_inv_init: "term_inv es s [(0, s, [s])] Map.empty"
  by (simp add: term_inv_def heap_ok_def)

subsection \<open>No exception on ids of one kind\<close>

lemma lt_node_same_kind: "is_str a = is_str b \<Longrightarrow> \<exists>r. lt_node a b = Inr r"
  by (cases a; cases b) auto

lemma lt_path_same_kind:
  "\<forall>n \<in> set p. is_str n = k \<Longrightarrow> \<forall>n \<in> set q. is_str n = k \<Longrightarrow> \<exists>r. lt_path p q = Inr r"
proof (induction p q rule: lt_path.induct)
  case (4 x xs y ys)
  then show ?case using lt_node_same_kind [of x y] by auto
qed auto

lemma lt_item_same_kind:
  "item_kind k a \<Longrightarrow> item_kind k b \<Longrightarrow> \<exists>r. lt_item a b = Inr r"
  using lt_node_same_kind [of "fst (snd a)" "fst (snd b)"]
    lt_path_same_kind [of "snd (snd a)" k "snd (snd b)"]
  by (auto simp: lt_item_def item_kind_def)

lemma siftdown_same_kind:
  "\<forall>it \<in> set h. item_kind k it \<Longrightarrow> item_kind k x \<Longrightarrow> pos < length h \<Longrightarrow>
   \<exists>h'. siftdown h sp pos x = Inr h'"
proof (induction pos arbitrary: h rule: less_induct)
  case (less pos)
  show ?case
  proof (cases "sp < pos")
    case False
    then show ?thesis by (simp add: siftdown_stop)
  next
    case True
    let ?pp = "(pos - 1) div 2"
    have pp: "?pp < pos" using True by (intro parent_less) simp
    with less.prems have par: "item_kind k (h ! ?pp)" by simp
    from lt_item_same_kind [OF less.prems(2) par] obtain b where b: "lt_item x (h ! ?pp) = Inr b"
      by blast
    show ?thesis
    proof (cases b)
      case t: True
      have "\<forall>it \<in> set (h[pos := h ! ?pp]). item_kind k it"
        using less.prems(1) par by (metis insert_iff set_update_subset_insert subsetD)
      from less.IH [OF pp this less.prems(2)] pp less.prems(3)
      obtain h' where "siftdown (h[pos := h ! ?pp]) sp ?pp x = Inr h'" by auto
      with True b t show ?thesis by (simp add: siftdown_up)
    next
      case False
      with True b show ?thesis by (simp add: siftdown_stay)
    qed
  qed
qed

lemma siftup_loop_same_kind:
  "\<forall>it \<in> set h. item_kind k it \<Longrightarrow>
   \<exists>h' pos'. siftup_loop h pos = Inr (h', pos') \<and> (\<forall>it \<in> set h'. item_kind k it) \<and>
      length h' = length h \<and> (pos < length h \<longrightarrow> pos' < length h)"
proof (induction "length h - pos" arbitrary: h pos rule: less_induct)
  case less
  have upd: "\<forall>it \<in> set (h[pos := h ! c]). item_kind k it" if "c < length h" for c
    using less.prems that by (metis insert_iff nth_mem set_update_subset_insert subsetD)
  show ?case
  proof (cases "2 * pos + 1 < length h")
    case False
    with less.prems show ?thesis by (simp add: siftup_loop_leaf)
  next
    case True
    have step: "\<exists>h' pos'. siftup_loop (h[pos := h ! c]) c = Inr (h', pos') \<and>
        (\<forall>it \<in> set h'. item_kind k it) \<and> length h' = length h \<and> pos' < length h"
      if c: "c < length h" "pos < c" for c
    proof -
      have "length (h[pos := h ! c]) - c < length h - pos" using c by simp
      from less.hyps [OF this upd [OF c(1)]] c(1) show ?thesis by simp
    qed
    show ?thesis
    proof (cases "2 * pos + 2 < length h")
      case False
      from step [of "2 * pos + 1"] True show ?thesis
        using siftup_loop_one [OF True False] by auto
    next
      case r: True
      have "item_kind k (h ! (2 * pos + 1))" "item_kind k (h ! (2 * pos + 2))"
        using less.prems True r by simp_all
      from lt_item_same_kind [OF this] obtain b
        where b: "lt_item (h ! (2 * pos + 1)) (h ! (2 * pos + 2)) = Inr b" by blast
      show ?thesis
      proof (cases b)
        case t: True
        from step [of "2 * pos + 1"] True show ?thesis
          using siftup_loop_left [OF r] b t by auto
      next
        case False
        from step [of "2 * pos + 2"] r show ?thesis
          using siftup_loop_right [OF r] b False by auto
      qed
    qed
  qed
qed

lemma heappush_same_kind:
  assumes "\<forall>it \<in> set h. item_kind k it" "item_kind k x"
  shows "\<exists>h'. heappush h x = Inr h'"
  unfolding heappush_def
  by (rule siftdown_same_kind [of "h @ [x]" k]) (use assms in auto)

lemma heappop_same_kind:
  assumes "\<forall>it \<in> set h. item_kind k it" "h \<noteq> []"
  shows "\<exists>r. heappop h = Inr r"
proof (cases "butlast h = []")
  case True
  then have "heappop h = Inr (last h, [])" by (simp add: heappop_def)
  then show ?thesis by blast
next
  case False
  let ?g = "(butlast h)[0 := last h]"
  have g: "\<forall>it \<in> set ?g. item_kind k it"
    using assms by (metis in_set_butlastD insert_iff last_in_set set_update_subset_insert subsetD)
  have len: "0 < length ?g" using False by (metis length_greater_0_conv length_list_update)
  from siftup_loop_same_kind [OF g, of 0] len obtain h' pos'
    where sl: "siftup_loop ?g 0 = Inr (h', pos')" "\<forall>it \<in> set h'. item_kind k it"
      "length h' = length ?g" "pos' < length ?g" by auto
  have "item_kind k (?g ! 0)" using g len by (metis nth_mem)
  from siftdown_same_kind [OF sl(2) this, of pos' 0] sl(3,4)
  obtain h2 where "siftdown h' 0 pos' (?g ! 0) = Inr h2" by auto
  with sl(1) False have "heappop h = Inr (butlast h ! 0, h2)"
    by (simp add: heappop_def siftup_def Let_def)
  then show ?thesis by blast
qed

lemma push_neighbours_same_kind:
  assumes "\<forall>it \<in> set pq. item_kind k it" "heap_ok pq"
    and "\<forall>n \<in> set path. is_str n = k" "\<forall>e \<in> set adj. is_str (fst e) = k"
  shows "\<exists>pq2. push_neighbours tc seen cost node path adj pq = Inr pq2"
  using assms
proof (induction adj arbitrary: pq)
  case Nil
  then show ?case by simp
next
  case (Cons e rest)
  let ?nc = "cost + edge_cost tc node (fst e) (snd e)"
  let ?it = "(?nc, fst e, path @ [fst e])"
  show ?case
  proof (cases "case seen (fst e) of None \<Rightarrow> True | Some c \<Rightarrow> ?nc < c")
    case True
    have ik: "item_kind k ?it" using Cons.prems(3,4) by (simp add: item_kind_def)
    from heappush_same_kind [OF Cons.prems(1) ik] obtain pq1 where p1: "heappush pq ?it = Inr pq1"
      by blast
    from heappush_ok [OF p1 Cons.prems(2)]
    have h1: "heap_ok pq1" and m1: "mset pq1 = add_mset ?it (mset pq)" by auto
    from m1 have s1: "set pq1 = insert ?it (set pq)"
      by (metis set_mset_add_mset_insert set_mset_mset)
    have "\<forall>it \<in> set pq1. item_kind k it" using s1 ik Cons.prems(1) by simp
    from Cons.IH [OF this h1 Cons.prems(3)] Cons.prems(4)
    obtain pq2 where "push_neighbours tc seen cost node path rest pq1 = Inr pq2" by auto
    with True p1 show ?thesis by (simp add: Let_def)
  next
    case False
    from Cons.IH [OF Cons.prems(1,2,3)] Cons.prems(4)
    obtain pq2 where "push_neighbours tc seen cost node path rest pq = Inr pq2" by auto
    with False show ?thesis by (simp add: Let_def)
  qed
qed

lemma find_path_loop_no_error_aux:
  assumes "find_path_loop es0 goal0 tc0 pq0 seen0 = Some r0"
  shows "uniform_ids es0 s \<and> heap_ok pq0 \<and> (\<forall>it \<in> set pq0. item_kind (is_str s) it)
           \<longrightarrow> (\<exists>x. r0 = Inr x)"
proof (rule find_path_loop.raw_induct
    [where P = "\<lambda>es goal tc pq seen r.
        uniform_ids es s \<and> heap_ok pq \<and> (\<forall>it \<in> set pq. item_kind (is_str s) it)
           \<longrightarrow> (\<exists>x. r = Inr x)",
      OF _ assms], goal_cases)
  case (1 loop es goal tc pq seen r)
  note body = 1(2)
  have IH: "\<exists>x. r' = Inr x"
    if "loop es' goal' tc' pq' seen' = Some r'" "uniform_ids es' s" "heap_ok pq'"
      "\<forall>it \<in> set pq'. item_kind (is_str s) it"
    for es' goal' tc' pq' seen' r'
    using 1(1) that by blast
  show ?case
  proof
    assume a: "uniform_ids es s \<and> heap_ok pq \<and> (\<forall>it \<in> set pq. item_kind (is_str s) it)"
    then have u: "uniform_ids es s" and h: "heap_ok pq"
      and kd: "\<forall>it \<in> set pq. item_kind (is_str s) it" by auto
    show "\<exists>x. r = Inr x"
    proof (cases "pq = []")
      case True
      with body have "r = Inr None" by simp
      then show ?thesis by blast
    next
      case ne: False
      from heappop_same_kind [OF kd ne] obtain res where Inr: "heappop pq = Inr res" by blast
      obtain it pq1 where res: "res = (it, pq1)" by (cases res)
      with Inr have pop: "heappop pq = Inr (it, pq1)" by simp
      from heappop_ok [OF pop h ne]
      have h1: "heap_ok pq1" and m: "mset pq = add_mset it (mset pq1)" by auto
      from m have st: "set pq = insert it (set pq1)"
        by (metis set_mset_add_mset_insert set_mset_mset)
      have kd1: "\<forall>it \<in> set pq1. item_kind (is_str s) it" using kd st by simp
      show ?thesis
      proof (cases "fst (snd it) = goal")
        case True
        with ne pop body have "r = Inr (Some (snd (snd it)))" by (simp add: Let_def)
        then show ?thesis by blast
      next
        case ng: False
        show ?thesis
        proof (cases "case seen (fst (snd it)) of None \<Rightarrow> False | Some c \<Rightarrow> c \<le> fst it")
          case True
          with ne pop ng body have rec: "loop es goal tc pq1 seen = Some r" by (simp add: Let_def)
          from IH [OF rec u h1 kd1] show ?thesis .
        next
          case nseen: False
          let ?seen = "seen(fst (snd it) \<mapsto> fst it)"
          have ik: "item_kind (is_str s) it" using kd st by simp
          then have pk: "\<forall>n \<in> set (snd (snd it)). is_str n = is_str s"
            by (simp add: item_kind_def)
          have ak: "\<forall>e \<in> set (edges_get es (fst (snd it))). is_str (fst e) = is_str s"
            using u edges_get_target unfolding uniform_ids_def by blast
          from push_neighbours_same_kind [OF kd1 h1 pk ak] obtain pq2
            where push: "push_neighbours tc ?seen (fst it) (fst (snd it)) (snd (snd it))
                          (edges_get es (fst (snd it))) pq1 = Inr pq2" by blast
          with ne pop ng nseen body have rec: "loop es goal tc pq2 ?seen = Some r"
            by (simp add: Let_def)
          from push_neighbours_ok [OF push h1]
          have h2: "heap_ok pq2"
            and new: "\<forall>j \<in> set pq2. j \<in> set pq1 \<or>
                (\<exists>e \<in> set (edges_get es (fst (snd it))).
                   j = (fst it + edge_cost tc (fst (snd it)) (fst e) (snd e), fst e,
                        snd (snd it) @ [fst e]))"
            by auto
          have kd2: "\<forall>j \<in> set pq2. item_kind (is_str s) j"
          proof
            fix j assume "j \<in> set pq2"
            with new have "j \<in> set pq1 \<or>
                (\<exists>e \<in> set (edges_get es (fst (snd it))).
                   j = (fst it + edge_cost tc (fst (snd it)) (fst e) (snd e), fst e,
                        snd (snd it) @ [fst e]))" by blast
            then show "item_kind (is_str s) j"
            proof
              assume "j \<in> set pq1"
              with kd1 show ?thesis by simp
            next
              assume "\<exists>e \<in> set (edges_get es (fst (snd it))).
                   j = (fst it + edge_cost tc (fst (snd it)) (fst e) (snd e), fst e,
                        snd (snd it) @ [fst e])"
              then obtain e where e: "e \<in> set (edges_get es (fst (snd it)))"
                "j = (fst it + edge_cost tc (fst (snd it)) (fst e) (snd e), fst e,
                        snd (snd it) @ [fst e])" by blast
              from ak e(1) have "is_str (fst e) = is_str s" by blast
              with pk e(2) show ?thesis by (simp add: item_kind_def)
            qed
          qed
          from IH [OF rec u h2 kd2] show ?thesis .
        qed
      qed
    qed
  qed
qed

subsection \<open>Minimum cost\<close>

lemma walk_hd: "walk es tc s p c \<Longrightarrow> p \<noteq> [] \<and> hd p = s"
  by (induction rule: walk.induct) auto

lemma edge_key_sym: "edge_key a b = edge_key b a"
  by (auto simp: edge_key_def)

lemma find_path_unfold:
  "\<not> (map_of es s = None \<or> map_of es g = None) \<Longrightarrow>
   find_path es s g traffic_counts =
   find_path_loop es g (case traffic_counts of None \<Rightarrow> Map.empty | Some t \<Rightarrow> t)
     [(0, s, [s])] Map.empty"
  unfolding find_path_def Let_def by (simp del: not_None_eq)

lemma find_path_result:
  assumes "find_path es s g traffic_counts = Some r"
  shows "map_of es s = None \<or> map_of es g = None \<and> r = Inr None \<or>
         route_post es (case traffic_counts of None \<Rightarrow> Map.empty | Some t \<Rightarrow> t) s g r"
proof (cases "map_of es s = None \<or> map_of es g = None")
  case True
  with assms show ?thesis by (auto simp: find_path_def)
next
  case False
  let ?tc = "case traffic_counts of None \<Rightarrow> Map.empty | Some t \<Rightarrow> t"
  from assms have "find_path_loop es g ?tc [(0, s, [s])] Map.empty = Some r"
    unfolding find_path_unfold [OF False] .
  from find_path_loop_partial [OF this route_inv_init] show ?thesis by simp
qed

lemma line_find:
  "find_path [(StrId ''A'', [(StrId ''B'', 5)]),
              (StrId ''B'', [(StrId ''A'', 5), (StrId ''C'', 5)]),
              (StrId ''C'', [(StrId ''B'', 5)])] (StrId ''A'') (StrId ''C'') None =
   Some (Inr (Some [StrId ''A'', StrId ''B'', StrId ''C'']))"
  by (simp add: find_path_def find_path_loop.simps heappop_def heappush_def siftdown.simps
      siftup_def siftup_loop.simps Let_def edges_get_def edge_cost_def traffic_get_def
      lt_item_def)

lemma line_walk:
  "walk [(StrId ''A'', [(StrId ''B'', 5)]),
         (StrId ''B'', [(StrId ''A'', 5), (StrId ''C'', 5)]),
         (StrId ''C'', [(StrId ''B'', 5)])] Map.empty (StrId ''A'')
     [StrId ''A'', StrId ''B'', StrId ''C''] 10"
proof -
  let ?es = "[(StrId ''A'', [(StrId ''B'', 5)]),
         (StrId ''B'', [(StrId ''A'', 5), (StrId ''C'', 5)]),
         (StrId ''C'', [(StrId ''B'', 5)])]"
  have 0: "walk ?es Map.empty (StrId ''A'') [StrId ''A''] 0" by (rule walk_start)
  have "walk ?es Map.empty (StrId ''A'') ([StrId ''A''] @ [StrId ''B''])
          (0 + edge_cost Map.empty (last [StrId ''A'']) (StrId ''B'') 5)"
    by (rule walk_step [OF 0]) (simp add: edges_get_def)
  then have 1: "walk ?es Map.empty (StrId ''A'') [StrId ''A'', StrId ''B''] 5"
    by (simp add: edge_cost_def traffic_get_def)
  have "walk ?es Map.empty (StrId ''A'') ([StrId ''A'', StrId ''B''] @ [StrId ''C''])
          (5 + edge_cost Map.empty (last [StrId ''A'', StrId ''B'']) (StrId ''C'') 5)"
    by (rule walk_step [OF 1]) (simp add: edges_get_def)
  then show ?thesis by (simp add: edge_cost_def traffic_get_def)
qed

text \<open>
  When no edge has a negative cost (weight plus ten times its congestion count),
  \<open>find_path\<close> returns. What it returns is a walk from the start to the goal whose cost
  is at most the cost of every walk from the start to the goal; or the unreachable
  result, when an endpoint is not a key of the edge map or no walk reaches the goal;
  or a TypeError, which needs a graph that mixes string and integer ids. The cost of an
  edge is its weight plus ten times the congestion count of its undirected key, so a
  count of 2 adds exactly 20. On the line graph A-B-C with weights 5 and 5 the path from
  A to C is [A, B, C], of cost 10.
\<close>

lemma find_path_min_cost:
  fixes traffic_counts :: "traffic option"
  defines "tc \<equiv> (case traffic_counts of None \<Rightarrow> Map.empty | Some t \<Rightarrow> t)"
  assumes nn: "nonneg_costs es tc"
  shows "(\<exists>r. find_path es s g traffic_counts = Some r \<and>
            (case r of
               Inl e \<Rightarrow> e = TypeError \<and> \<not> uniform_ids es s
             | Inr None \<Rightarrow>
                 map_of es s = None \<or> map_of es g = None \<or>
                 \<not> (\<exists>q c. walk es tc s q c \<and> last q = g)
             | Inr (Some p) \<Rightarrow>
                 (\<exists>c. walk es tc s p c \<and> last p = g \<and>
                      (\<forall>q c'. walk es tc s q c' \<and> last q = g \<longrightarrow> c \<le> c')))) \<and>
         edge_cost tc a b w = w + traffic_get tc a b * 10 \<and>
         traffic_get tc a b = traffic_get tc b a \<and>
         edge_cost (tc(edge_key a b \<mapsto> 2)) a b w = edge_cost (tc(edge_key a b := None)) a b w + 2 * 10 \<and>
         find_path [(StrId ''A'', [(StrId ''B'', 5)]),
              (StrId ''B'', [(StrId ''A'', 5), (StrId ''C'', 5)]),
              (StrId ''C'', [(StrId ''B'', 5)])] (StrId ''A'') (StrId ''C'') None =
           Some (Inr (Some [StrId ''A'', StrId ''B'', StrId ''C''])) \<and>
         walk [(StrId ''A'', [(StrId ''B'', 5)]),
               (StrId ''B'', [(StrId ''A'', 5), (StrId ''C'', 5)]),
               (StrId ''C'', [(StrId ''B'', 5)])] Map.empty (StrId ''A'')
           [StrId ''A'', StrId ''B'', StrId ''C''] 10"
proof -
  have main: "\<exists>r. find_path es s g traffic_counts = Some r \<and>
            (case r of
               Inl e \<Rightarrow> e = TypeError \<and> \<not> uniform_ids es s
             | Inr None \<Rightarrow>
                 map_of es s = None \<or> map_of es g = None \<or>
                 \<not> (\<exists>q c. walk es tc s q c \<and> last q = g)
             | Inr (Some p) \<Rightarrow>
                 (\<exists>c. walk es tc s p c \<and> last p = g \<and>
                      (\<forall>q c'. walk es tc s q c' \<and> last q = g \<longrightarrow> c \<le> c')))"
  proof (cases "map_of es s = None \<or> map_of es g = None")
    case True
    then have "find_path es s g traffic_counts = Some (Inr None)" by (auto simp: find_path_def)
    with True show ?thesis by auto
  next
    case False
    then have fp: "find_path es s g traffic_counts = find_path_loop es g tc [(0, s, [s])] Map.empty"
      unfolding tc_def by (rule find_path_unfold)
    from find_path_loop_terminates [OF nn term_inv_init] obtain r
      where r: "find_path_loop es g tc [(0, s, [s])] Map.empty = Some r" by blast
    from find_path_loop_partial [OF r route_inv_init]
    have post: "route_post es tc s g r" .
    have noerr: "\<exists>x. r = Inr x" if "uniform_ids es s"
    proof -
      have "heap_ok [(0, s, [s])]" by (simp add: heap_ok_def)
      moreover have "\<forall>it \<in> set [(0, s, [s])]. item_kind (is_str s) it"
        by (simp add: item_kind_def)
      ultimately show ?thesis using find_path_loop_no_error_aux [OF r, of s] that by blast
    qed
    have "case r of
               Inl e \<Rightarrow> e = TypeError \<and> \<not> uniform_ids es s
             | Inr None \<Rightarrow>
                 map_of es s = None \<or> map_of es g = None \<or>
                 \<not> (\<exists>q c. walk es tc s q c \<and> last q = g)
             | Inr (Some p) \<Rightarrow>
                 (\<exists>c. walk es tc s p c \<and> last p = g \<and>
                      (\<forall>q c'. walk es tc s q c' \<and> last q = g \<longrightarrow> c \<le> c'))"
    proof (cases r)
      case (Inl e)
      with post noerr show ?thesis by (auto simp: route_post_def)
    next
      case (Inr x)
      with post nn show ?thesis by (cases x) (auto simp: route_post_def)
    qed
    with fp r show ?thesis by simp
  qed
  have sym: "traffic_get tc a b = traffic_get tc b a"
    by (simp add: traffic_get_def edge_key_sym [of a b])
  have pen: "edge_cost (tc(edge_key a b \<mapsto> 2)) a b w
             = edge_cost (tc(edge_key a b := None)) a b w + 2 * 10"
    by (simp add: edge_cost_def traffic_get_def)
  from main sym pen line_find line_walk show ?thesis
    by (simp add: edge_cost_def)
qed

lemma find_path_min_cost_line:
  "\<exists>p c. find_path [(StrId ''A'', [(StrId ''B'', 5)]),
              (StrId ''B'', [(StrId ''A'', 5), (StrId ''C'', 5)]),
              (StrId ''C'', [(StrId ''B'', 5)])] (StrId ''A'') (StrId ''C'') None =
           Some (Inr (Some p)) \<and>
         walk [(StrId ''A'', [(StrId ''B'', 5)]),
               (StrId ''B'', [(StrId ''A'', 5), (StrId ''C'', 5)]),
               (StrId ''C'', [(StrId ''B'', 5)])] Map.empty (StrId ''A'') p c \<and>
         last p = StrId ''C'' \<and> c \<le> 10"
proof -
  let ?es = "[(StrId ''A'', [(StrId ''B'', 5)]),
              (StrId ''B'', [(StrId ''A'', 5), (StrId ''C'', 5)]),
              (StrId ''C'', [(StrId ''B'', 5)])]"
  have nn: "nonneg_costs ?es (case None of None \<Rightarrow> Map.empty | Some t \<Rightarrow> t)"
    by (auto simp: nonneg_costs_def edges_get_def edge_cost_def traffic_get_def
        split: if_splits)
  from find_path_min_cost [OF nn, where s = "StrId ''A''" and g = "StrId ''C''"
      and a = "StrId ''A''" and b = "StrId ''B''" and w = 5]
  obtain r where r: "find_path ?es (StrId ''A'') (StrId ''C'') None = Some r"
    and post: "case r of
               Inl e \<Rightarrow> e = TypeError \<and> \<not> uniform_ids ?es (StrId ''A'')
             | Inr None \<Rightarrow>
                 map_of ?es (StrId ''A'') = None \<or> map_of ?es (StrId ''C'') = None \<or>
                 \<not> (\<exists>q c. walk ?es Map.empty (StrId ''A'') q c \<and> last q = StrId ''C'')
             | Inr (Some p) \<Rightarrow>
                 (\<exists>c. walk ?es Map.empty (StrId ''A'') p c \<and> last p = StrId ''C'' \<and>
                      (\<forall>q c'. walk ?es Map.empty (StrId ''A'') q c' \<and> last q = StrId ''C''
                          \<longrightarrow> c \<le> c'))"
    by auto
  from r line_find have "r = Inr (Some [StrId ''A'', StrId ''B'', StrId ''C''])" by simp
  with post obtain c where c: "walk ?es Map.empty (StrId ''A'') [StrId ''A'', StrId ''B'', StrId ''C''] c"
    "\<forall>q c'. walk ?es Map.empty (StrId ''A'') q c' \<and> last q = StrId ''C'' \<longrightarrow> c \<le> c'"
    by auto
  from c(2) line_walk have "c \<le> 10" by force
  with c(1) line_find show ?thesis by auto
qed

subsection \<open>A reachable goal that is not found\<close>

lemma tie_find_hub:
  "find_path
     [(StrId ''r1_L'', [(StrId ''r1_M'', 50)]),
      (StrId ''r1_M'', [(StrId ''r1_L'', 50), (StrId ''r1_R'', 50), (IntId 1, 50), (IntId 3, 50)]),
      (StrId ''r1_R'', [(StrId ''r1_M'', 50)]),
      (IntId 2, []),
      (IntId 1, [(StrId ''r1_M'', 50)]),
      (IntId 3, [(StrId ''r1_M'', 50)])]
     (IntId 1) (IntId 3) None = Some (Inl TypeError)"
  by (simp add: find_path_def find_path_loop.simps heappop_def heappush_def siftdown.simps
      siftup_def siftup_loop.simps Let_def edges_get_def edge_cost_def traffic_get_def
      lt_item_def)

lemma tie_walk:
  "walk
     [(StrId ''r1_L'', [(StrId ''r1_M'', 50)]),
      (StrId ''r1_M'', [(StrId ''r1_L'', 50), (StrId ''r1_R'', 50), (IntId 1, 50), (IntId 3, 50)]),
      (StrId ''r1_R'', [(StrId ''r1_M'', 50)]),
      (IntId 2, []),
      (IntId 1, [(StrId ''r1_M'', 50)]),
      (IntId 3, [(StrId ''r1_M'', 50)])]
     Map.empty (IntId 1) [IntId 1, StrId ''r1_M'', IntId 3] 100"
proof -
  let ?es = "[(StrId ''r1_L'', [(StrId ''r1_M'', 50)]),
      (StrId ''r1_M'', [(StrId ''r1_L'', 50), (StrId ''r1_R'', 50), (IntId 1, 50), (IntId 3, 50)]),
      (StrId ''r1_R'', [(StrId ''r1_M'', 50)]),
      (IntId 2, []),
      (IntId 1, [(StrId ''r1_M'', 50)]),
      (IntId 3, [(StrId ''r1_M'', 50)])]"
  have 0: "walk ?es Map.empty (IntId 1) [IntId 1] 0" by (rule walk_start)
  have "walk ?es Map.empty (IntId 1) ([IntId 1] @ [StrId ''r1_M''])
          (0 + edge_cost Map.empty (last [IntId 1]) (StrId ''r1_M'') 50)"
    by (rule walk_step [OF 0]) (simp add: edges_get_def)
  then have 1: "walk ?es Map.empty (IntId 1) [IntId 1, StrId ''r1_M''] 50"
    by (simp add: edge_cost_def traffic_get_def)
  have "walk ?es Map.empty (IntId 1) ([IntId 1, StrId ''r1_M''] @ [IntId 3])
          (50 + edge_cost Map.empty (last [IntId 1, StrId ''r1_M'']) (IntId 3) 50)"
    by (rule walk_step [OF 1]) (simp add: edges_get_def)
  then show ?thesis by (simp add: edge_cost_def traffic_get_def)
qed

text \<open>
  C4. On a road whose midpoint has hubs 1 and 3 attached, both at distance 50, hub 3 is
  reachable from hub 1: the walk 1, r1\_M, 3 has cost 100. \<open>find_path\<close> from hub 1 to hub
  3 returns no path: after the midpoint it pushes the road's two ends and hub 3, all at
  cost 100, and the heap's comparison of hub 3 (an integer id) with a road end (a string
  id) raises TypeError.
\<close>

theorem find_path_type_error_on_reachable_goal:
  "\<exists>sim.
     Simulator_init
       \<lparr>roads = [\<lparr>road_id = 1, road_x = 0, road_y = 0, road_w = 100, road_h = 20,
                      road_type = None\<rparr>],
           hubs = [\<lparr>hub_id = 2, hub_x = 50, hub_y = 1010\<rparr>,
                   \<lparr>hub_id = 1, hub_x = 50, hub_y = 60\<rparr>,
                   \<lparr>hub_id = 3, hub_x = 50, hub_y = - 40\<rparr>],
           map_symbols = [], map_lights = []\<rparr> = Inr sim \<and>
     walk (sim_edges sim) Map.empty (IntId 1) [IntId 1, StrId ''r1_M'', IntId 3] 100 \<and>
     find_path (sim_edges sim) (IntId 1) (IntId 3) None = Some (Inl TypeError)"
  by (simp add: Simulator_init_def tie_graph tie_find_hub tie_walk Let_def)

section \<open>Spawning\<close>

lemma find_path_some:
  assumes "find_path es s g traffic_counts = Some (Inr (Some p))"
  shows "map_of es s \<noteq> None \<and> p \<noteq> [] \<and> hd p = s \<and> last p = g"
proof (cases "map_of es s = None \<or> map_of es g = None")
  case True
  with assms show ?thesis by (auto simp: find_path_def)
next
  case False
  from find_path_result [OF assms] False
  have "route_post es (case traffic_counts of None \<Rightarrow> Map.empty | Some t \<Rightarrow> t) s g (Inr (Some p))"
    by auto
  then obtain c where "walk es (case traffic_counts of None \<Rightarrow> Map.empty | Some t \<Rightarrow> t) s p c"
    "last p = g" by (auto simp: route_post_def)
  with walk_hd False show ?thesis by blast
qed

lemma keys_edges_append: "fst ` set (edges_append es k e) = insert k (fst ` set es)"
  by (simp add: edges_append_def dom_update)

lemma keys_connect_best:
  assumes "fst ` set es \<subseteq> K" "a \<in> K"
    and "fold (nearest_step p) cs None = best" "fst ` set cs \<subseteq> K"
  shows "fst ` set (connect_best a best es) \<subseteq> K"
proof (cases best)
  case None
  with assms(1) show ?thesis by (simp add: connect_best_def)
next
  case (Some b)
  with assms(3) nearest_in_candidates [of p cs None b] have "fst b \<in> fst ` set cs" by simp
  with assms Some show ?thesis by (auto simp: connect_best_def keys_edges_append)
qed

lemma keys_add_road:
  "fst ` set (snd g) \<subseteq> fst ` set (fst g) \<Longrightarrow>
   fst ` set (snd (add_road r g)) \<subseteq> fst ` set (fst (add_road r g))"
  by (auto simp: add_road_def Let_def keys_edges_append dom_update)

lemma keys_roads:
  "fst ` set (snd g) \<subseteq> fst ` set (fst g) \<Longrightarrow>
   fst ` set (snd (fold add_road rs g)) \<subseteq> fst ` set (fst (fold add_road rs g))"
  by (induction rs arbitrary: g) (simp_all add: keys_add_road)

lemma keys_intersect_pair:
  assumes "fst ` set (snd g) \<subseteq> fst ` set (fst g)"
  shows "fst ` set (snd (intersect_pair a b g)) \<subseteq> fst ` set (fst (intersect_pair a b g))"
proof (cases "rect_overlap a b")
  case None
  with assms show ?thesis by (simp add: intersect_pair_def)
next
  case (Some ov)
  let ?id = "StrId (''i'' @ str_int (road_id a) @ ''_'' @ str_int (road_id b))"
  let ?c = "(fst ov + fst (snd (snd ov)) / 2, fst (snd ov) + snd (snd (snd ov)) / 2)"
  let ?ns1 = "AList.update ?id ?c (fst g)"
  let ?ca = "filter (\<lambda>c. startswith (fst c) (''r'' @ str_int (road_id a) @ ''_'')) ?ns1"
  let ?cb = "filter (\<lambda>c. startswith (fst c) (''r'' @ str_int (road_id b) @ ''_'')) ?ns1"
  let ?K = "fst ` set ?ns1"
  have 0: "fst ` set (snd g) \<subseteq> ?K" using assms by (auto simp: dom_update)
  have k: "?id \<in> ?K" by (simp add: dom_update)
  have 1: "fst ` set (connect_best ?id (fold (nearest_step ?c) ?ca None) (snd g)) \<subseteq> ?K"
    by (rule keys_connect_best [OF 0 k refl]) auto
  have 2: "fst ` set (connect_best ?id (fold (nearest_step ?c) ?cb None)
             (connect_best ?id (fold (nearest_step ?c) ?ca None) (snd g))) \<subseteq> ?K"
    by (rule keys_connect_best [OF 1 k refl]) auto
  with Some show ?thesis by (simp add: intersect_pair_def Let_def)
qed

lemma keys_fold_intersect:
  "fst ` set (snd g) \<subseteq> fst ` set (fst g) \<Longrightarrow>
   fst ` set (snd (fold (intersect_pair a) rs g)) \<subseteq> fst ` set (fst (fold (intersect_pair a) rs g))"
  by (induction rs arbitrary: g) (simp_all add: keys_intersect_pair)

lemma keys_intersect_roads:
  "fst ` set (snd g) \<subseteq> fst ` set (fst g) \<Longrightarrow>
   fst ` set (snd (intersect_roads rs g)) \<subseteq> fst ` set (fst (intersect_roads rs g))"
  by (induction rs arbitrary: g) (simp_all add: keys_fold_intersect)

lemma keys_stitch_pair:
  "fst ` set es \<subseteq> K \<Longrightarrow> fst c1 \<in> K \<Longrightarrow> fst c2 \<in> K \<Longrightarrow>
   fst ` set (stitch_pair c1 c2 es) \<subseteq> K"
  by (auto simp: stitch_pair_def Let_def keys_edges_append)

lemma keys_fold_stitch:
  "fst ` set es \<subseteq> K \<Longrightarrow> fst c \<in> K \<Longrightarrow> fst ` set cs \<subseteq> K \<Longrightarrow>
   fst ` set (fold (stitch_pair c) cs es) \<subseteq> K"
  by (induction cs arbitrary: es) (simp_all add: keys_stitch_pair)

lemma keys_stitch_nodes:
  "fst ` set es \<subseteq> K \<Longrightarrow> fst ` set cs \<subseteq> K \<Longrightarrow> fst ` set (stitch_nodes cs es) \<subseteq> K"
  by (induction cs arbitrary: es) (simp_all add: keys_fold_stitch)

lemma keys_add_hub:
  assumes "fst ` set (snd g) \<subseteq> fst ` set (fst g)"
  shows "fst ` set (snd (add_hub d h g)) \<subseteq> fst ` set (fst (add_hub d h g))"
proof -
  let ?hid = "IntId (hub_id h)"
  let ?p = "(hub_x h, hub_y h)"
  let ?ns1 = "AList.update ?hid ?p (fst g)"
  let ?es1 = "AList.update ?hid [] (snd g)"
  let ?best = "fold (nearest_step ?p) (filter (\<lambda>c. fst c \<noteq> ?hid) ?ns1) None"
  have 1: "fst ` set ?es1 \<subseteq> fst ` set ?ns1" using assms by (auto simp: dom_update)
  show ?thesis
  proof (cases ?best)
    case None
    with 1 show ?thesis by (simp add: add_hub_def Let_def)
  next
    case (Some b)
    with nearest_in_candidates [of ?p "filter (\<lambda>c. fst c \<noteq> ?hid) ?ns1" None b]
    have "fst b \<in> fst ` set ?ns1" by auto
    moreover have "?hid \<in> fst ` set ?ns1" by (simp add: dom_update)
    ultimately show ?thesis using 1 Some
      by (auto simp: add_hub_def Let_def keys_edges_append)
  qed
qed

lemma keys_hubs:
  "fst ` set (snd g) \<subseteq> fst ` set (fst g) \<Longrightarrow>
   fst ` set (snd (fold (add_hub d) hs g)) \<subseteq> fst ` set (fst (fold (add_hub d) hs g))"
  by (induction hs arbitrary: g) (simp_all add: keys_add_hub)

lemma build_graph_keys:
  "fst ` set (snd (build_graph md d)) \<subseteq> fst ` set (fst (build_graph md d))"
proof -
  let ?g2 = "intersect_roads (roads md) (fold add_road (roads md) ([], []))"
  have "fst ` set (snd ?g2) \<subseteq> fst ` set (fst ?g2)"
    by (intro keys_intersect_roads keys_roads) simp
  then have "fst ` set (stitch_nodes (fst ?g2) (snd ?g2)) \<subseteq> fst ` set (fst ?g2)"
    by (rule keys_stitch_nodes) simp
  then show ?thesis
    unfolding build_graph_def Let_def by (intro keys_hubs) simp
qed

lemma Simulator_init_keys:
  "Simulator_init md = Inr sim \<Longrightarrow> fst ` set (sim_edges sim) \<subseteq> fst ` set (sim_nodes sim)"
  using build_graph_keys [of md 80]
  by (auto simp: Simulator_init_def Let_def split: sum.splits) force

lemma road_graph:
  "build_graph
     \<lparr>roads = [\<lparr>road_id = 1, road_x = 0, road_y = - 10, road_w = 200, road_h = 20,
                 road_type = Some ''big''\<rparr>],
      hubs = [\<lparr>hub_id = 1, hub_x = 0, hub_y = 0\<rparr>, \<lparr>hub_id = 2, hub_x = 200, hub_y = 0\<rparr>],
      map_symbols = [], map_lights = []\<rparr> 80 =
   ([(StrId ''r1_L'', (0, 0)), (StrId ''r1_M'', (100, 0)), (StrId ''r1_R'', (200, 0)),
     (IntId 1, (0, 0)), (IntId 2, (200, 0))],
    [(StrId ''r1_L'', [(StrId ''r1_M'', 100), (IntId 1, 0)]),
     (StrId ''r1_M'', [(StrId ''r1_L'', 100), (StrId ''r1_R'', 100)]),
     (StrId ''r1_R'', [(StrId ''r1_M'', 100), (IntId 2, 0)]),
     (IntId 1, [(StrId ''r1_L'', 0)]),
     (IntId 2, [(StrId ''r1_R'', 0)])])"
  by (simp add: build_graph_def add_road_def road_node_def str_int_1 Let_def
      dist_pt_same_y dist_pt_same_x edges_append_def edges_get_def rect_overlap_def stitch_pair_def
      add_hub_def nearest_step_def)

lemma road_find:
  "find_path
    [(StrId ''r1_L'', [(StrId ''r1_M'', 100), (IntId 1, 0)]),
     (StrId ''r1_M'', [(StrId ''r1_L'', 100), (StrId ''r1_R'', 100)]),
     (StrId ''r1_R'', [(StrId ''r1_M'', 100), (IntId 2, 0)]),
     (IntId 1, [(StrId ''r1_L'', 0)]),
     (IntId 2, [(StrId ''r1_R'', 0)])] (IntId 1) (IntId 2) None =
   Some (Inr (Some [IntId 1, StrId ''r1_L'', StrId ''r1_M'', StrId ''r1_R'', IntId 2]))"
  by (simp add: find_path_def find_path_loop.simps heappop_def heappush_def siftdown.simps
      siftup_def siftup_loop.simps Let_def edges_get_def edge_cost_def traffic_get_def
      lt_item_def)

text \<open>
  C7. In a simulator whose edge-map keys are all nodes (as \<open>Simulator_init\<close> builds it),
  when \<open>find_path\<close> returns (a path or the unreachable result), \<open>spawn_car\<close> returns
  True exactly when the result is a path of at least two nodes; it then appends one car
  with that path and the current id and increments the id counter; otherwise it returns
  False and the simulator is unchanged.
\<close>

theorem spawn_car_iff_path:
  assumes fp: "find_path (sim_edges sim) start_id end_id None = Some (Inr r)"
    and keys: "fst ` set (sim_edges sim) \<subseteq> fst ` set (sim_nodes sim)"
  shows "\<exists>b sim'. spawn_car sim start_id end_id rnd = Some (Inr (b, sim')) \<and>
           (b \<longleftrightarrow> (\<exists>p. r = Some p \<and> 2 \<le> length p)) \<and>
           (b \<longrightarrow> (\<exists>car. r = Some (car_path car) \<and> car_id car = sim_next_car_id sim \<and>
                      sim' = sim\<lparr>sim_next_car_id := sim_next_car_id sim + 1,
                                 sim_cars := sim_cars sim @ [car]\<rparr>)) \<and>
           (\<not> b \<longrightarrow> sim' = sim)"
proof (cases r)
  case None
  with fp have "spawn_car sim start_id end_id rnd = Some (Inr (False, sim))"
    by (simp add: spawn_car_def)
  with None show ?thesis by (intro exI [of _ False] exI [of _ sim]) simp
next
  case (Some p)
  show ?thesis
  proof (cases "2 \<le> length p")
    case False
    with fp Some have "spawn_car sim start_id end_id rnd = Some (Inr (False, sim))"
      by (auto simp: spawn_car_def)
    with False Some show ?thesis by (intro exI [of _ False] exI [of _ sim]) simp
  next
    case True
    from find_path_some [of "sim_edges sim" start_id end_id None p] fp Some
    have s: "map_of (sim_edges sim) start_id \<noteq> None" "p \<noteq> []" "hd p = start_id" by auto
    from s(1) have "start_id \<in> fst ` set (sim_edges sim)"
      by (metis domIff dom_map_of_conv_image_fst)
    with keys have "start_id \<in> fst ` set (sim_nodes sim)" by blast
    then obtain pos where "map_of (sim_nodes sim) start_id = Some pos"
      by (metis domD dom_map_of_conv_image_fst)
    with s(2,3) have "Car_init p (sim_nodes sim) (sim_next_car_id sim) rnd =
        Inr \<lparr>car_path = p, car_id = sim_next_car_id sim, car_edge_idx = 0, car_progress = 0,
             car_speed = 80 + rnd, car_radius = 6, car_finished = False,
             car_intersection_target = None, car_pos = pos\<rparr>"
      by (simp add: Car_init_def nodes_at_def)
    with fp Some True s(2)
    have "spawn_car sim start_id end_id rnd =
        Some (Inr (True, sim\<lparr>sim_next_car_id := sim_next_car_id sim + 1,
           sim_cars := sim_cars sim @
             [\<lparr>car_path = p, car_id = sim_next_car_id sim, car_edge_idx = 0, car_progress = 0,
               car_speed = 80 + rnd, car_radius = 6, car_finished = False,
               car_intersection_target = None, car_pos = pos\<rparr>]\<rparr>))"
      by (simp add: spawn_car_def)
    with Some True show ?thesis
      by (intro exI [of _ True] exI [of _ "sim\<lparr>sim_next_car_id := sim_next_car_id sim + 1,
           sim_cars := sim_cars sim @
             [\<lparr>car_path = p, car_id = sim_next_car_id sim, car_edge_idx = 0, car_progress = 0,
               car_speed = 80 + rnd, car_radius = 6, car_finished = False,
               car_intersection_target = None, car_pos = pos\<rparr>]\<rparr>"])
         (auto intro!: exI [of _ "\<lparr>car_path = p, car_id = sim_next_car_id sim, car_edge_idx = 0,
               car_progress = 0, car_speed = 80 + rnd, car_radius = 6, car_finished = False,
               car_intersection_target = None, car_pos = pos\<rparr>"])
  qed
qed

theorem spawn_car_iff_path_witness:
  "\<exists>sim sim'.
     Simulator_init
       \<lparr>roads = [\<lparr>road_id = 1, road_x = 0, road_y = - 10, road_w = 200, road_h = 20,
                   road_type = Some ''big''\<rparr>],
        hubs = [\<lparr>hub_id = 1, hub_x = 0, hub_y = 0\<rparr>, \<lparr>hub_id = 2, hub_x = 200, hub_y = 0\<rparr>],
        map_symbols = [], map_lights = []\<rparr> = Inr sim \<and>
     spawn_car sim (IntId 1) (IntId 2) 3 = Some (Inr (True, sim')) \<and>
     sim_next_car_id sim' = 2 \<and> length (sim_cars sim') = 1"
proof -
  let ?md = "\<lparr>roads = [\<lparr>road_id = 1, road_x = 0, road_y = - 10, road_w = 200, road_h = 20,
                   road_type = Some ''big''\<rparr>],
        hubs = [\<lparr>hub_id = 1, hub_x = 0, hub_y = 0\<rparr>, \<lparr>hub_id = 2, hub_x = 200, hub_y = 0\<rparr>],
        map_symbols = [], map_lights = []\<rparr>"
  obtain sim where init: "Simulator_init ?md = Inr sim"
    by (simp add: Simulator_init_def Let_def)
  then have e: "sim_edges sim = snd (build_graph ?md 80)" and c: "sim_cars sim = []"
    and n: "sim_next_car_id sim = 1"
    by (auto simp: Simulator_init_def Let_def)
  have fp: "find_path (sim_edges sim) (IntId 1) (IntId 2) None =
      Some (Inr (Some [IntId 1, StrId ''r1_L'', StrId ''r1_M'', StrId ''r1_R'', IntId 2]))"
    unfolding e road_graph using road_find by simp
  from spawn_car_iff_path [OF fp Simulator_init_keys [OF init], of 3]
  obtain b sim' where s: "spawn_car sim (IntId 1) (IntId 2) 3 = Some (Inr (b, sim'))"
    and iff: "b \<longleftrightarrow> (\<exists>p. Some [IntId 1, StrId ''r1_L'', StrId ''r1_M'', StrId ''r1_R'', IntId 2]
                        = Some p \<and> 2 \<le> length p)"
    and imp: "b \<longrightarrow> (\<exists>car. Some [IntId 1, StrId ''r1_L'', StrId ''r1_M'', StrId ''r1_R'', IntId 2]
                           = Some (car_path car) \<and> car_id car = sim_next_car_id sim \<and>
                      sim' = sim\<lparr>sim_next_car_id := sim_next_car_id sim + 1,
                                 sim_cars := sim_cars sim @ [car]\<rparr>)"
    by blast
  from iff have b: "b" by simp
  with imp obtain car where upd: "sim' = sim\<lparr>sim_next_car_id := sim_next_car_id sim + 1,
                                 sim_cars := sim_cars sim @ [car]\<rparr>" by blast
  from upd c n have "sim_next_car_id sim' = 2 \<and> length (sim_cars sim') = 1" by simp
  moreover from s b have "spawn_car sim (IntId 1) (IntId 2) 3 = Some (Inr (True, sim'))" by simp
  ultimately show ?thesis using init by (intro exI [of _ sim] exI [of _ sim']) simp
qed

section \<open>Routing from an isolated hub\<close>

text \<open>From a node with an empty adjacency list to another key of the edge map, the loop
  pops the start, pushes nothing, and ends on the empty queue: the unreachable result.\<close>

lemma find_path_from_isolated:
  assumes "map_of es h = Some []" "map_of es g \<noteq> None" "g \<noteq> h"
  shows "find_path es h g traffic_counts = Some (Inr None)"
proof -
  let ?tc = "case traffic_counts of None \<Rightarrow> Map.empty | Some t \<Rightarrow> t"
  have "find_path_loop es g ?tc [(0, h, [h])] Map.empty = find_path_loop es g ?tc [] [h \<mapsto> 0]"
    using assms
    by (subst find_path_loop.simps) (simp add: heappop_single edges_get_def Let_def)
  also have "\<dots> = Some (Inr None)"
    by (subst find_path_loop.simps) simp
  finally show ?thesis using assms by (simp add: find_path_unfold)
qed

end
